theory Spec2Isabelle
  imports Main
begin

section \<open>JavaScript values\<close>

text \<open>
  The model of \<^verbatim>\<open>zellous-sdk.js\<close>; line numbers refer to that file.

  Message payloads are plain JavaScript data. A record (object literal) keeps its
  properties in insertion order, as an association list without repeated keys. A number is
  a decimal: \<open>JNum i\<close> is the integer \<open>i\<close>, and \<open>JDec m k\<close> is \<open>m / 10\<^sup>k\<close> for a number that is
  not an integer (\<open>k\<close> is positive and \<open>m\<close> is not a multiple of ten). A number read from a
  text is the decimal the text denotes, where JavaScript rounds it to the nearest double.
  Strings are lists of bytes, the UTF-8 encoding of the text.
\<close>

datatype jsval =
    JUndefined
  | JNull
  | JBool bool
  | JNum int
  | JDec int nat
  | JStr string
  | JArr "jsval list"
  | JObj "(string \<times> jsval) list"

text \<open>Property read \<open>v.k\<close> on a value that is neither \<open>null\<close> nor \<open>undefined\<close>:
  a missing property reads as \<open>undefined\<close>.\<close>

definition get :: "jsval \<Rightarrow> string \<Rightarrow> jsval" where
  "get v k = (case v of
      JObj kvs \<Rightarrow> (case map_of kvs k of None \<Rightarrow> JUndefined | Some x \<Rightarrow> x)
    | _ \<Rightarrow> JUndefined)"

definition nullish :: "jsval \<Rightarrow> bool" where
  "nullish v = (v = JUndefined \<or> v = JNull)"

datatype error = NotConnected | SyntaxError | TypeError | RangeError | UserError

datatype wire = Blob string | Text string

section \<open>The wire codec\<close>

text \<open>
  \<open>_pack\<close> is \<open>new Blob([JSON.stringify(obj)])\<close> and \<open>_unpack\<close> is \<open>JSON.parse\<close> of the
  frame's text. The two built-ins are written out on the values above: \<open>ser\<close> is the
  serialisation of a property value without indentation (members whose value is
  \<open>undefined\<close> are left out of a record, and \<open>undefined\<close> inside an array is written
  \<open>null\<close>; a number that is not an integer is written in positional notation),
  \<open>p_value\<close> is a recursive-descent reader of the JSON grammar, which answers
  \<open>SyntaxError\<close> where \<open>JSON.parse\<close> throws. A number may have a fraction and an exponent
  (\<open>p_frac\<close>, \<open>p_exp\<close>). In a string, an escape of four hexadecimal digits stands for the
  UTF-8 bytes of its code point, and the escape of a high surrogate followed by the escape
  of a low surrogate for the bytes of the code point of the pair (\<open>pair_with\<close>).
  The first argument of the reader bounds the depth of its calls; \<open>JSON_parse\<close> passes
  twice the length of the text plus one, which the reader never uses up (lemma
  \<open>p_value_error\<close>): the answer at depth zero is never the answer of \<open>JSON_parse\<close>.
  A \<open>Blob\<close> holds the text it was built from, and \<open>blob.text()\<close> gives it back.
\<close>

definition digit_char :: "nat \<Rightarrow> char" where
  "digit_char n = ''0123456789'' ! n"

definition hex_char :: "nat \<Rightarrow> char" where
  "hex_char n = ''0123456789abcdef'' ! n"

fun show_nat :: "nat \<Rightarrow> string" where
  "show_nat n = (if n < 10 then [digit_char n] else show_nat (n div 10) @ [digit_char (n mod 10)])"

declare show_nat.simps [simp del]

definition show_int :: "int \<Rightarrow> string" where
  "show_int i = (if i < 0 then CHR ''-'' # show_nat (nat (- i)) else show_nat (nat i))"

definition pad :: "nat \<Rightarrow> string \<Rightarrow> string" where
  "pad k ds = replicate (k - length ds) CHR ''0'' @ ds"

definition show_dec :: "int \<Rightarrow> nat \<Rightarrow> string" where
  "show_dec m k =
     (if k = 0 then show_int m
      else (if m < 0 then ''-'' else []) @ show_nat (nat \<bar>m\<bar> div 10 ^ k) @
           CHR ''.'' # pad k (show_nat (nat \<bar>m\<bar> mod 10 ^ k)))"

definition quote_char :: "char \<Rightarrow> string" where
  "quote_char c =
     (if c = CHR 0x08 then [CHR 0x5C, CHR ''b'']
      else if c = CHR 0x09 then [CHR 0x5C, CHR ''t'']
      else if c = CHR 0x0A then [CHR 0x5C, CHR ''n'']
      else if c = CHR 0x0C then [CHR 0x5C, CHR ''f'']
      else if c = CHR 0x0D then [CHR 0x5C, CHR ''r'']
      else if c = CHR 0x22 then [CHR 0x5C, CHR 0x22]
      else if c = CHR 0x5C then [CHR 0x5C, CHR 0x5C]
      else if of_char c < (32 :: nat)
        then [CHR 0x5C, CHR ''u'', CHR ''0'', CHR ''0'',
              hex_char (of_char c div 16), hex_char (of_char c mod 16)]
      else [c])"

definition quote :: "string \<Rightarrow> string" where
  "quote s = CHR 0x22 # concat (map quote_char s) @ [CHR 0x22]"

fun join :: "string list \<Rightarrow> string" where
  "join [] = []"
| "join [t] = t"
| "join (t # u # ts) = t @ CHR '','' # join (u # ts)"

fun ser :: "jsval \<Rightarrow> string"
  and elem_texts :: "jsval list \<Rightarrow> string list"
  and member_texts :: "(string \<times> jsval) list \<Rightarrow> string list" where
  "ser JUndefined = ''null''"
| "ser JNull = ''null''"
| "ser (JBool b) = (if b then ''true'' else ''false'')"
| "ser (JNum i) = show_int i"
| "ser (JDec m k) = show_dec m k"
| "ser (JStr s) = quote s"
| "ser (JArr vs) = CHR ''['' # join (elem_texts vs) @ '']''"
| "ser (JObj kvs) = CHR ''{'' # join (member_texts kvs) @ ''}''"
| "elem_texts [] = []"
| "elem_texts (v # vs) = ser v # elem_texts vs"
| "member_texts [] = []"
| "member_texts ((k, v) # kvs) =
     (if v = JUndefined then member_texts kvs
      else (quote k @ CHR '':'' # ser v) # member_texts kvs)"

definition JSON_stringify :: "jsval \<Rightarrow> string option" where
  "JSON_stringify v = (if v = JUndefined then None else Some (ser v))"

definition is_ws :: "char \<Rightarrow> bool" where
  "is_ws c = (c = CHR 0x20 \<or> c = CHR 0x09 \<or> c = CHR 0x0A \<or> c = CHR 0x0D)"

definition skip_ws :: "string \<Rightarrow> string" where
  "skip_ws s = dropWhile is_ws s"

definition is_digit :: "char \<Rightarrow> bool" where
  "is_digit c = (48 \<le> (of_char c :: nat) \<and> (of_char c :: nat) \<le> 57)"

definition digit_val :: "char \<Rightarrow> nat" where
  "digit_val c = of_char c - 48"

definition hex_val :: "char \<Rightarrow> nat option" where
  "hex_val c =
     (let n = (of_char c :: nat) in
      if 48 \<le> n \<and> n \<le> 57 then Some (n - 48)
      else if 97 \<le> n \<and> n \<le> 102 then Some (n - 87)
      else if 65 \<le> n \<and> n \<le> 70 then Some (n - 55)
      else None)"

definition hex4 :: "char \<Rightarrow> char \<Rightarrow> char \<Rightarrow> char \<Rightarrow> nat option" where
  "hex4 a b c d =
     (case (hex_val a, hex_val b, hex_val c, hex_val d) of
        (Some w, Some x, Some y, Some z) \<Rightarrow> Some (((w * 16 + x) * 16 + y) * 16 + z)
      | _ \<Rightarrow> None)"

definition unescape :: "char \<Rightarrow> char option" where
  "unescape e =
     (if e = CHR 0x22 then Some (CHR 0x22)
      else if e = CHR 0x5C then Some (CHR 0x5C)
      else if e = CHR ''/'' then Some (CHR ''/'')
      else if e = CHR ''b'' then Some (CHR 0x08)
      else if e = CHR ''f'' then Some (CHR 0x0C)
      else if e = CHR ''n'' then Some (CHR 0x0A)
      else if e = CHR ''r'' then Some (CHR 0x0D)
      else if e = CHR ''t'' then Some (CHR 0x09)
      else None)"

definition with_chars :: "string \<Rightarrow> error + string \<times> string \<Rightarrow> error + string \<times> string" where
  "with_chars cs r = (case r of Inl e \<Rightarrow> Inl e | Inr (s, rest) \<Rightarrow> Inr (cs @ s, rest))"

definition utf8 :: "nat \<Rightarrow> string" where
  "utf8 n =
     (if n < 0x80 then [char_of n]
      else if n < 0x800 then [char_of (0xC0 + n div 0x40), char_of (0x80 + n mod 0x40)]
      else if n < 0x10000
        then [char_of (0xE0 + n div 0x1000), char_of (0x80 + n div 0x40 mod 0x40),
              char_of (0x80 + n mod 0x40)]
      else [char_of (0xF0 + n div 0x40000), char_of (0x80 + n div 0x1000 mod 0x40),
            char_of (0x80 + n div 0x40 mod 0x40), char_of (0x80 + n mod 0x40)])"

definition low_escape :: "string \<Rightarrow> nat option" where
  "low_escape cs =
     (case cs of
        b # u # h1 # h2 # h3 # h4 # rest \<Rightarrow>
          if b = CHR 0x5C \<and> u = CHR ''u'' then
            (case hex4 h1 h2 h3 h4 of
               None \<Rightarrow> None
             | Some m \<Rightarrow> if 0xDC00 \<le> m \<and> m \<le> 0xDFFF then Some m else None)
          else None
      | _ \<Rightarrow> None)"

definition pair_with :: "nat \<Rightarrow> string \<Rightarrow> nat option" where
  "pair_with n cs =
     (if 0xD800 \<le> n \<and> n \<le> 0xDBFF
      then map_option (\<lambda>m. 0x10000 + (n - 0xD800) * 0x400 + (m - 0xDC00)) (low_escape cs)
      else None)"

fun p_string :: "string \<Rightarrow> error + string \<times> string" where
  "p_string [] = Inl SyntaxError"
| "p_string (c # cs) =
     (if c = CHR 0x22 then Inr ([], cs)
      else if c = CHR 0x5C then
        (case cs of
           [] \<Rightarrow> Inl SyntaxError
         | e # cs1 \<Rightarrow>
             if e = CHR ''u'' then
               (case cs1 of
                  h1 # h2 # h3 # h4 # cs2 \<Rightarrow>
                    (case hex4 h1 h2 h3 h4 of
                       None \<Rightarrow> Inl SyntaxError
                     | Some n \<Rightarrow>
                         (case pair_with n cs2 of
                            None \<Rightarrow> with_chars (utf8 n) (p_string cs2)
                          | Some cp \<Rightarrow> with_chars (utf8 cp) (p_string (drop 6 cs2))))
                | _ \<Rightarrow> Inl SyntaxError)
             else
               (case unescape e of
                  None \<Rightarrow> Inl SyntaxError
                | Some ch \<Rightarrow> with_chars [ch] (p_string cs1)))
      else if of_char c < (32 :: nat) then Inl SyntaxError
      else with_chars [c] (p_string cs))"

definition read_nat :: "string \<Rightarrow> nat" where
  "read_nat ds = foldl (\<lambda>a c. 10 * a + digit_val c) 0 ds"

fun reduce :: "int \<Rightarrow> nat \<Rightarrow> jsval" where
  "reduce m 0 = JNum m"
| "reduce m (Suc k) = (if m mod 10 = 0 then reduce (m div 10) k else JDec m (Suc k))"

definition number :: "int \<Rightarrow> int \<Rightarrow> jsval" where
  "number m e = (if 0 \<le> e then JNum (m * 10 ^ nat e) else reduce m (nat (- e)))"

definition p_frac :: "string \<Rightarrow> (string \<times> string) option" where
  "p_frac r =
     (if r \<noteq> [] \<and> hd r = CHR ''.''
      then (if takeWhile is_digit (tl r) = [] then None
            else Some (takeWhile is_digit (tl r), dropWhile is_digit (tl r)))
      else Some ([], r))"

definition p_exp :: "string \<Rightarrow> (int \<times> string) option" where
  "p_exp r =
     (if r \<noteq> [] \<and> (hd r = CHR ''e'' \<or> hd r = CHR ''E'')
      then (let r1 = tl r;
                neg = (r1 \<noteq> [] \<and> hd r1 = CHR ''-'');
                r2 = (if r1 \<noteq> [] \<and> (hd r1 = CHR ''-'' \<or> hd r1 = CHR ''+'') then tl r1 else r1);
                es = takeWhile is_digit r2
            in if es = [] then None
               else Some (if neg then - int (read_nat es) else int (read_nat es),
                          dropWhile is_digit r2))
      else Some (0, r))"

definition p_number :: "string \<Rightarrow> error + jsval \<times> string" where
  "p_number s =
     (let neg = (s \<noteq> [] \<and> hd s = CHR ''-'');
          s1 = (if neg then tl s else s);
          ds = takeWhile is_digit s1
      in if ds = [] then Inl SyntaxError
         else if hd ds = CHR ''0'' \<and> 1 < length ds then Inl SyntaxError
         else (case p_frac (dropWhile is_digit s1) of
                 None \<Rightarrow> Inl SyntaxError
               | Some (fs, r) \<Rightarrow>
                   (case p_exp r of
                      None \<Rightarrow> Inl SyntaxError
                    | Some (x, rest) \<Rightarrow>
                        Inr (number (if neg then - int (read_nat (ds @ fs))
                                     else int (read_nat (ds @ fs)))
                                    (x - int (length fs)),
                             rest))))"

fun put :: "string \<Rightarrow> jsval \<Rightarrow> (string \<times> jsval) list \<Rightarrow> (string \<times> jsval) list" where
  "put k v [] = [(k, v)]"
| "put k v ((k', v') # kvs) = (if k' = k then (k', v) # kvs else (k', v') # put k v kvs)"

definition build :: "(string \<times> jsval) list \<Rightarrow> jsval" where
  "build kvs = JObj (foldl (\<lambda>acc (k, v). put k v acc) [] kvs)"

fun p_value :: "nat \<Rightarrow> string \<Rightarrow> error + jsval \<times> string"
  and p_elems :: "nat \<Rightarrow> string \<Rightarrow> error + jsval list \<times> string"
  and p_members :: "nat \<Rightarrow> string \<Rightarrow> error + (string \<times> jsval) list \<times> string" where
  "p_value 0 s = Inl RangeError"
| "p_value (Suc f) s =
     (case skip_ws s of
        [] \<Rightarrow> Inl SyntaxError
      | c # r \<Rightarrow>
          if c = CHR ''{'' then
            (case skip_ws r of
               [] \<Rightarrow> Inl SyntaxError
             | c1 # r1 \<Rightarrow>
                 if c1 = CHR ''}'' then Inr (JObj [], r1)
                 else (case p_members f r of
                         Inl e \<Rightarrow> Inl e
                       | Inr (kvs, r2) \<Rightarrow> Inr (build kvs, r2)))
          else if c = CHR ''['' then
            (case skip_ws r of
               [] \<Rightarrow> Inl SyntaxError
             | c1 # r1 \<Rightarrow>
                 if c1 = CHR '']'' then Inr (JArr [], r1)
                 else (case p_elems f r of
                         Inl e \<Rightarrow> Inl e
                       | Inr (vs, r2) \<Rightarrow> Inr (JArr vs, r2)))
          else if c = CHR 0x22 then
            (case p_string r of
               Inl e \<Rightarrow> Inl e
             | Inr (t, r1) \<Rightarrow> Inr (JStr t, r1))
          else if c = CHR ''-'' \<or> is_digit c then p_number (c # r)
          else if take 4 (c # r) = ''true'' then Inr (JBool True, drop 4 (c # r))
          else if take 5 (c # r) = ''false'' then Inr (JBool False, drop 5 (c # r))
          else if take 4 (c # r) = ''null'' then Inr (JNull, drop 4 (c # r))
          else Inl SyntaxError)"
| "p_elems 0 s = Inl RangeError"
| "p_elems (Suc f) s =
     (case p_value f s of
        Inl e \<Rightarrow> Inl e
      | Inr (v, r) \<Rightarrow>
          (case skip_ws r of
             [] \<Rightarrow> Inl SyntaxError
           | c # r1 \<Rightarrow>
               if c = CHR '','' then
                 (case p_elems f r1 of
                    Inl e \<Rightarrow> Inl e
                  | Inr (vs, r2) \<Rightarrow> Inr (v # vs, r2))
               else if c = CHR '']'' then Inr ([v], r1)
               else Inl SyntaxError))"
| "p_members 0 s = Inl RangeError"
| "p_members (Suc f) s =
     (case skip_ws s of
        [] \<Rightarrow> Inl SyntaxError
      | c # r \<Rightarrow>
          if c \<noteq> CHR 0x22 then Inl SyntaxError
          else
            (case p_string r of
               Inl e \<Rightarrow> Inl e
             | Inr (k, r1) \<Rightarrow>
                 (case skip_ws r1 of
                    [] \<Rightarrow> Inl SyntaxError
                  | c1 # r2 \<Rightarrow>
                      if c1 \<noteq> CHR '':'' then Inl SyntaxError
                      else
                        (case p_value f r2 of
                           Inl e \<Rightarrow> Inl e
                         | Inr (v, r3) \<Rightarrow>
                             (case skip_ws r3 of
                                [] \<Rightarrow> Inl SyntaxError
                              | c2 # r4 \<Rightarrow>
                                  if c2 = CHR '','' then
                                    (case p_members f r4 of
                                       Inl e \<Rightarrow> Inl e
                                     | Inr (kvs, r5) \<Rightarrow> Inr ((k, v) # kvs, r5))
                                  else if c2 = CHR ''}'' then Inr ([(k, v)], r4)
                                  else Inl SyntaxError)))))"

definition JSON_parse :: "string \<Rightarrow> error + jsval" where
  "JSON_parse text =
     (case p_value (2 * length text + 1) text of
        Inl e \<Rightarrow> Inl e
      | Inr (v, rest) \<Rightarrow> if skip_ws rest = [] then Inr v else Inl SyntaxError)"

definition pack :: "jsval \<Rightarrow> wire" where
  "pack obj = Blob (case JSON_stringify obj of None \<Rightarrow> ''undefined'' | Some t \<Rightarrow> t)"

definition unpack :: "wire \<Rightarrow> error + jsval" where
  "unpack w = (case w of Blob t \<Rightarrow> JSON_parse t | Text t \<Rightarrow> JSON_parse t)"

section \<open>The client and its environment\<close>

text \<open>
  Functions are values with an identity: \<open>off\<close> finds a handler with \<^verbatim>\<open>indexOf\<close>, which
  compares with \<^verbatim>\<open>===\<close>. A function supplied by the caller is \<open>UserFn i\<close>; registered twice,
  it is the same value twice. The callbacks the client itself passes to \<open>once\<close> are
  \<open>CbConnect p\<close> (lines 54-58: stores \<open>clientId\<close> and \<open>user\<close>, resolves promise \<open>p\<close>),
  \<open>CbResolve p\<close> (line 78), \<open>CbMessages p\<close> (line 113) and \<open>CbFiles p\<close> (line 120).
  \<open>OnceWrapper w event cb\<close> is the closure \<^verbatim>\<open>wrappedHandler\<close> that one call of \<open>once\<close>
  creates (lines 142-145); \<open>w\<close> is fresh for every call, so two wrappers of one function are
  two handlers.
\<close>

datatype callback =
    UserFn nat
  | CbConnect nat
  | CbResolve nat
  | CbMessages nat
  | CbFiles nat

datatype handler = Plain callback | OnceWrapper nat string callback

datatype unsubscribe = Unsubscribe string handler

text \<open>
  What the body of a caller's function does is given from outside, as a \<open>program\<close>: for
  the function's number and its argument, the list of what it does, in order. It can throw,
  and it can call the client: \<open>emit\<close>, \<open>on\<close>, \<open>off\<close>, \<open>once\<close>, \<open>disconnect\<close>, \<open>connect\<close>.
\<close>

datatype action =
    Throw
  | DoEmit string jsval
  | DoOn string nat
  | DoOff string nat
  | DoOnce string nat
  | DoDisconnect
  | DoConnect "string option"

type_synonym program = "nat \<Rightarrow> jsval \<Rightarrow> action list"

datatype readyState = CONNECTING | OPEN | CLOSING | CLOSED

text \<open>
  A \<^verbatim>\<open>WebSocket\<close> object: its address, its \<^verbatim>\<open>readyState\<close>, what its callbacks have captured
  from the \<open>connect\<close> call that created it (the token, and the promise that \<^verbatim>\<open>reject\<close>
  settles), and the frames handed to its \<^verbatim>\<open>send\<close>.
\<close>

record socket =
  url :: string
  ready :: readyState
  token :: "string option"
  pending :: nat
  sent :: "wire list"

datatype promise = Waiting | Fulfilled jsval | Failed jsval

text \<open>
  The fields of the class (lines 3-16), then the part of the environment the client acts
  on: the sockets it has created, the pending timeouts (handle, delay and the token the
  timeout's closure has captured), the promises it has returned, a counter for fresh
  handles and identities (it starts at 1: a timer handle is never falsy), and \<open>calls\<close>, the
  record of the calls made to the caller's functions, each with its argument.
\<close>

record sdk =
  serverUrl :: string
  autoReconnect :: bool
  reconnectDelay :: nat
  ws :: "nat option"
  clientId :: jsval
  roomId :: jsval
  user :: jsval
  listeners :: "string \<rightharpoonup> handler list"
  reconnectTimer :: "nat option"
  connected :: bool
  sockets :: "nat \<rightharpoonup> socket"
  timers :: "(nat \<times> nat \<times> string option) list"
  promises :: "nat \<rightharpoonup> promise"
  nextId :: nat
  calls :: "(nat \<times> jsval) list"

text \<open>
  Lines 133-156. \<open>on\<close> returns the closure that undoes it. \<^verbatim>\<open>splice(indexOf(handler), 1)\<close>
  removes the first occurrence of the handler: \<open>remove1\<close>.
\<close>

definition on :: "string \<Rightarrow> handler \<Rightarrow> sdk \<Rightarrow> unsubscribe \<times> sdk" where
  "on event h st =
     (Unsubscribe event h,
      st\<lparr>listeners := (listeners st)(event \<mapsto>
            (case listeners st event of None \<Rightarrow> [h] | Some hs \<Rightarrow> hs @ [h]))\<rparr>)"

definition off :: "string \<Rightarrow> handler \<Rightarrow> sdk \<Rightarrow> sdk" where
  "off event h st =
     (case listeners st event of
        None \<Rightarrow> st
      | Some hs \<Rightarrow> st\<lparr>listeners := (listeners st)(event \<mapsto> remove1 h hs)\<rparr>)"

definition once :: "string \<Rightarrow> callback \<Rightarrow> sdk \<Rightarrow> unsubscribe \<times> sdk" where
  "once event cb st =
     on event (OnceWrapper (nextId st) event cb) (st\<lparr>nextId := Suc (nextId st)\<rparr>)"

text \<open>
  Lines 2-17. The spread \<^verbatim>\<open>...options\<close> comes last in the object literal, so an option that
  is given replaces the default computed before it, whatever its value.
\<close>

record options =
  opt_serverUrl :: "string option"
  opt_autoReconnect :: "bool option"
  opt_reconnectDelay :: "nat option"

definition ZellousSDK :: "options \<Rightarrow> sdk" where
  "ZellousSDK opts =
     \<lparr>serverUrl = (case opt_serverUrl opts of None \<Rightarrow> ''ws://localhost:3000'' | Some u \<Rightarrow> u),
      autoReconnect = (case opt_autoReconnect opts of None \<Rightarrow> True | Some b \<Rightarrow> b),
      reconnectDelay = (case opt_reconnectDelay opts of None \<Rightarrow> 3000 | Some n \<Rightarrow> n),
      ws = None, clientId = JNull, roomId = JNull, user = JNull,
      listeners = Map.empty, reconnectTimer = None, connected = False,
      sockets = Map.empty, timers = [], promises = Map.empty, nextId = 1, calls = []\<rparr>"

text \<open>
  A promise settles once; settling it again does nothing.
\<close>

definition resolve :: "nat \<Rightarrow> jsval \<Rightarrow> sdk \<Rightarrow> sdk" where
  "resolve p v st =
     (if promises st p = Some Waiting then st\<lparr>promises := (promises st)(p \<mapsto> Fulfilled v)\<rparr> else st)"

definition reject :: "nat \<Rightarrow> jsval \<Rightarrow> sdk \<Rightarrow> sdk" where
  "reject p v st =
     (if promises st p = Some Waiting then st\<lparr>promises := (promises st)(p \<mapsto> Failed v)\<rparr> else st)"

text \<open>
  Lines 19-60: promise \<open>p\<close>, socket \<open>s\<close>, then the one-shot registration. The callbacks
  assigned to the socket are \<open>ws_onopen\<close>, \<open>ws_onmessage\<close>, \<open>ws_onerror\<close> and \<open>ws_onclose\<close>
  below, applied to what the socket has captured. The address is assumed to be one that
  the \<^verbatim>\<open>WebSocket\<close> constructor accepts.
\<close>

definition connect :: "string option \<Rightarrow> sdk \<Rightarrow> nat \<times> sdk" where
  "connect tok st =
     (let p = nextId st;
          s = Suc (nextId st);
          u = (case tok of
                 None \<Rightarrow> serverUrl st
               | Some t \<Rightarrow> if t = [] then serverUrl st else serverUrl st @ ''?token='' @ t);
          st1 = st\<lparr>promises := (promises st)(p \<mapsto> Waiting),
                   sockets := (sockets st)(s \<mapsto>
                     \<lparr>url = u, ready = CONNECTING, token = tok, pending = p, sent = []\<rparr>),
                   ws := Some s,
                   nextId := Suc (Suc (nextId st))\<rparr>
      in (p, snd (once ''connection_established'' (CbConnect p) st1)))"

text \<open>
  Lines 62-72. \<^verbatim>\<open>ws.close()\<close> moves a socket that is connecting or open to \<open>CLOSING\<close>; its
  close event comes later, from the environment, and its callbacks stay attached.
\<close>

definition clearTimeout :: "nat \<Rightarrow> sdk \<Rightarrow> sdk" where
  "clearTimeout t st = st\<lparr>timers := filter (\<lambda>(h, _). h \<noteq> t) (timers st)\<rparr>"

definition ws_close :: "nat \<Rightarrow> sdk \<Rightarrow> sdk" where
  "ws_close s st =
     (case sockets st s of
        None \<Rightarrow> st
      | Some sock \<Rightarrow>
          if ready sock = CLOSED \<or> ready sock = CLOSING then st
          else st\<lparr>sockets := (sockets st)(s \<mapsto> sock\<lparr>ready := CLOSING\<rparr>)\<rparr>)"

definition disconnect :: "sdk \<Rightarrow> sdk" where
  "disconnect st =
     (let st1 = (case reconnectTimer st of
                   None \<Rightarrow> st
                 | Some t \<Rightarrow> (clearTimeout t st)\<lparr>reconnectTimer := None\<rparr>);
          st2 = (case ws st1 of
                   None \<Rightarrow> st1
                 | Some s \<Rightarrow> (ws_close s st1)\<lparr>ws := None\<rparr>)
      in st2\<lparr>connected := False\<rparr>)"

text \<open>
  Lines 158-168. \<^verbatim>\<open>forEach\<close> reads the length of the array once, then visits the indices
  below it in order and reads the array as it is at that moment: an index that is no
  longer in the array is skipped, and an element appended meanwhile is not visited. The
  array of an event is created once, by \<open>on\<close>, and only changed in place afterwards, so
  reading \<open>listeners st event\<close> at each index is reading that array. The \<^verbatim>\<open>catch\<close> around
  the call discards the error (\<open>forEach\<close> keeps the state and drops the outcome).

  A handler may emit again. \<open>emit d\<close> is the emission with room for \<open>d\<close> further nested
  emissions on the call stack; a nested emission beyond that raises \<open>RangeError\<close> in the
  function that attempts it, which the enclosing \<^verbatim>\<open>catch\<close> handles like any other error.
  The properties below hold for every \<open>d\<close>.
\<close>

type_synonym emitter = "string \<Rightarrow> jsval \<Rightarrow> sdk \<Rightarrow> sdk"

fun run :: "emitter option \<Rightarrow> action list \<Rightarrow> sdk \<Rightarrow> error option \<times> sdk" where
  "run nested [] st = (None, st)"
| "run nested (Throw # as) st = (Some UserError, st)"
| "run nested (DoEmit e x # as) st =
     (case nested of
        None \<Rightarrow> (Some RangeError, st)
      | Some em \<Rightarrow> run nested as (em e x st))"
| "run nested (DoOn e i # as) st = run nested as (snd (on e (Plain (UserFn i)) st))"
| "run nested (DoOff e i # as) st = run nested as (off e (Plain (UserFn i)) st)"
| "run nested (DoOnce e i # as) st = run nested as (snd (once e (UserFn i) st))"
| "run nested (DoDisconnect # as) st = run nested as (disconnect st)"
| "run nested (DoConnect tok # as) st = run nested as (snd (connect tok st))"

definition invoke ::
  "emitter option \<Rightarrow> program \<Rightarrow> callback \<Rightarrow> jsval \<Rightarrow> sdk \<Rightarrow> error option \<times> sdk" where
  "invoke nested H cb x st =
     (case cb of
        UserFn i \<Rightarrow> run nested (H i x) (st\<lparr>calls := calls st @ [(i, x)]\<rparr>)
      | CbConnect p \<Rightarrow>
          if nullish x then (Some TypeError, st)
          else (None, resolve p x (st\<lparr>clientId := get x ''clientId'', user := get x ''user''\<rparr>))
      | CbResolve p \<Rightarrow> (None, resolve p x st)
      | CbMessages p \<Rightarrow>
          if nullish x then (Some TypeError, st) else (None, resolve p (get x ''messages'') st)
      | CbFiles p \<Rightarrow>
          if nullish x then (Some TypeError, st) else (None, resolve p (get x ''files'') st))"

definition call ::
  "emitter option \<Rightarrow> program \<Rightarrow> handler \<Rightarrow> jsval \<Rightarrow> sdk \<Rightarrow> error option \<times> sdk" where
  "call nested H h x st =
     (case h of
        Plain cb \<Rightarrow> invoke nested H cb x st
      | OnceWrapper w e cb \<Rightarrow> invoke nested H cb x (off e h st))"

fun forEach ::
  "emitter option \<Rightarrow> program \<Rightarrow> string \<Rightarrow> jsval \<Rightarrow> nat \<Rightarrow> nat \<Rightarrow> sdk \<Rightarrow> sdk" where
  "forEach nested H event x k 0 st = st"
| "forEach nested H event x k (Suc n) st =
     (case listeners st event of
        None \<Rightarrow> st
      | Some hs \<Rightarrow>
          if k < length hs
          then forEach nested H event x (Suc k) n (snd (call nested H (hs ! k) x st))
          else forEach nested H event x (Suc k) n st)"

definition emit_from :: "emitter option \<Rightarrow> program \<Rightarrow> emitter" where
  "emit_from nested H event x st =
     (case listeners st event of
        None \<Rightarrow> st
      | Some hs \<Rightarrow> forEach nested H event x 0 (length hs) st)"

primrec emit :: "nat \<Rightarrow> program \<Rightarrow> emitter" where
  "emit 0 H = emit_from None H"
| "emit (Suc d) H = emit_from (Some (emit d H)) H"

subsection \<open>Message router\<close>

text \<open>
  Lines 178-210. Reading \<^verbatim>\<open>msg.type\<close> of \<^verbatim>\<open>null\<close> or \<^verbatim>\<open>undefined\<close> throws before anything
  is emitted. Events are registered under strings, so the emission under a type that is
  not a string finds no handler (\<open>emit_any\<close>).
\<close>

definition emit_any :: "nat \<Rightarrow> program \<Rightarrow> jsval \<Rightarrow> jsval \<Rightarrow> sdk \<Rightarrow> sdk" where
  "emit_any d H k x st = (case k of JStr event \<Rightarrow> emit d H event x st | _ \<Rightarrow> st)"

definition handleMessage :: "nat \<Rightarrow> program \<Rightarrow> jsval \<Rightarrow> sdk \<Rightarrow> error option \<times> sdk" where
  "handleMessage d H msg st =
     (if nullish msg then (Some TypeError, st)
      else
        let ty = get msg ''type'';
            st1 = emit_any d H ty msg st;
            st2 = emit d H ''message'' msg st1
        in (None,
            if ty = JStr ''connection_established''
              then st2\<lparr>clientId := get msg ''clientId'', user := get msg ''user''\<rparr>
            else if ty = JStr ''room_joined''
              then st2\<lparr>roomId := get msg ''roomId''\<rparr>
            else if ty = JStr ''text_message'' \<or> ty = JStr ''image_message'' \<or> ty = JStr ''file_shared''
              then emit d H ''chat_message'' msg st2
            else if ty = JStr ''user_joined''
              then emit d H ''user_presence''
                     (JObj [(''type'', JStr ''joined''), (''user'', get msg ''user''),
                            (''userId'', get msg ''userId'')]) st2
            else if ty = JStr ''user_left''
              then emit d H ''user_presence''
                     (JObj [(''type'', JStr ''left''), (''userId'', get msg ''userId'')]) st2
            else if ty = JStr ''speaker_joined''
              then emit d H ''voice_presence''
                     (JObj [(''type'', JStr ''joined''), (''userId'', get msg ''userId''),
                            (''user'', get msg ''user'')]) st2
            else if ty = JStr ''speaker_left''
              then emit d H ''voice_presence''
                     (JObj [(''type'', JStr ''left''), (''userId'', get msg ''userId''),
                            (''user'', get msg ''user'')]) st2
            else st2))"

subsection \<open>Transport callbacks\<close>

text \<open>
  Lines 24-52. The message callback is an \<^verbatim>\<open>async\<close> function: when \<^verbatim>\<open>_unpack\<close> or the router
  throws, the promise the callback returns is rejected, and nothing observes it. The
  callback of the reconnect timeout is \<open>reconnect\<close> (lines 47-50).
\<close>

definition ws_onopen :: "nat \<Rightarrow> program \<Rightarrow> sdk \<Rightarrow> sdk" where
  "ws_onopen d H st = emit d H ''connected'' JUndefined (st\<lparr>connected := True\<rparr>)"

definition ws_onmessage :: "nat \<Rightarrow> program \<Rightarrow> wire \<Rightarrow> sdk \<Rightarrow> error option \<times> sdk" where
  "ws_onmessage d H data st =
     (case unpack data of
        Inl e \<Rightarrow> (Some e, st)
      | Inr msg \<Rightarrow> handleMessage d H msg st)"

definition ws_onerror :: "nat \<Rightarrow> program \<Rightarrow> nat \<Rightarrow> jsval \<Rightarrow> sdk \<Rightarrow> sdk" where
  "ws_onerror d H p err st = reject p err (emit d H ''error'' err st)"

definition setTimeout :: "string option \<Rightarrow> nat \<Rightarrow> sdk \<Rightarrow> nat \<times> sdk" where
  "setTimeout tok delay st =
     (nextId st, st\<lparr>timers := timers st @ [(nextId st, delay, tok)], nextId := Suc (nextId st)\<rparr>)"

definition ws_onclose :: "nat \<Rightarrow> program \<Rightarrow> string option \<Rightarrow> sdk \<Rightarrow> sdk" where
  "ws_onclose d H tok st =
     (let st1 = emit d H ''disconnected'' JUndefined (st\<lparr>connected := False\<rparr>)
      in if autoReconnect st1 \<and> reconnectTimer st1 = None
         then (case setTimeout tok (reconnectDelay st1) st1 of
                 (t, st2) \<Rightarrow> st2\<lparr>reconnectTimer := Some t\<rparr>)
         else st1)"

definition reconnect :: "string option \<Rightarrow> sdk \<Rightarrow> sdk" where
  "reconnect tok st = snd (connect tok (st\<lparr>reconnectTimer := None\<rparr>))"

subsection \<open>Events of the environment\<close>

text \<open>
  What the browser does: it sets \<^verbatim>\<open>readyState\<close>, then calls the socket's callback. A socket
  opens from \<open>CONNECTING\<close>, receives messages only while \<open>OPEN\<close> and closes once. A
  timeout fires if it is still pending, and is then no longer pending.
\<close>

datatype event =
    Open nat
  | Message nat wire
  | Error nat jsval
  | Close nat
  | Timeout nat

fun deliver :: "nat \<Rightarrow> program \<Rightarrow> event \<Rightarrow> sdk \<Rightarrow> sdk" where
  "deliver d H (Open s) st =
     (case sockets st s of
        None \<Rightarrow> st
      | Some sock \<Rightarrow>
          if ready sock = CONNECTING
          then ws_onopen d H (st\<lparr>sockets := (sockets st)(s \<mapsto> sock\<lparr>ready := OPEN\<rparr>)\<rparr>)
          else st)"
| "deliver d H (Message s data) st =
     (case sockets st s of
        None \<Rightarrow> st
      | Some sock \<Rightarrow> if ready sock = OPEN then snd (ws_onmessage d H data st) else st)"
| "deliver d H (Error s err) st =
     (case sockets st s of
        None \<Rightarrow> st
      | Some sock \<Rightarrow> if ready sock = CLOSED then st else ws_onerror d H (pending sock) err st)"
| "deliver d H (Close s) st =
     (case sockets st s of
        None \<Rightarrow> st
      | Some sock \<Rightarrow>
          if ready sock = CLOSED then st
          else ws_onclose d H (token sock)
                 (st\<lparr>sockets := (sockets st)(s \<mapsto> sock\<lparr>ready := CLOSED\<rparr>)\<rparr>))"
| "deliver d H (Timeout t) st =
     (case find (\<lambda>(h, _). h = t) (timers st) of
        None \<Rightarrow> st
      | Some (h, delay, tok) \<Rightarrow> reconnect tok (clearTimeout t st))"

subsection \<open>Request facade\<close>

text \<open>
  Lines 74-131 and 170-176. An \<^verbatim>\<open>async\<close> function runs to completion here: the awaits
  inside it wait for promises that are already resolved, and no event of the environment
  comes in between. Its result is \<open>Returned v\<close> (the promise it returns is fulfilled with
  \<open>v\<close>), \<open>Raised e\<close> (rejected with \<open>e\<close>) or \<open>Awaiting p\<close> (it settles when promise \<open>p\<close>
  does). A parameter with a default value takes it when the argument is \<^verbatim>\<open>undefined\<close>
  (\<open>orDefault\<close>). \<^verbatim>\<open>Date.now()\<close> is the argument \<open>now\<close>.
\<close>

datatype 'a completion = Returned 'a | Raised error | Awaiting nat

definition send :: "jsval \<Rightarrow> sdk \<Rightarrow> error option \<times> sdk" where
  "send message st =
     (case ws st of
        None \<Rightarrow> (Some NotConnected, st)
      | Some s \<Rightarrow>
          (case sockets st s of
             None \<Rightarrow> (Some NotConnected, st)
           | Some sock \<Rightarrow>
               if ready sock \<noteq> OPEN then (Some NotConnected, st)
               else (None, st\<lparr>sockets := (sockets st)(s \<mapsto>
                              sock\<lparr>sent := sent sock @ [pack message]\<rparr>)\<rparr>)))"

definition awaitOnce :: "string \<Rightarrow> (nat \<Rightarrow> callback) \<Rightarrow> sdk \<Rightarrow> jsval completion \<times> sdk" where
  "awaitOnce event cb st =
     (let p = nextId st;
          st1 = st\<lparr>promises := (promises st)(p \<mapsto> Waiting), nextId := Suc (nextId st)\<rparr>
      in (Awaiting p, snd (once event (cb p) st1)))"

definition joinRoom :: "jsval \<Rightarrow> sdk \<Rightarrow> jsval completion \<times> sdk" where
  "joinRoom r st =
     (case send (JObj [(''type'', JStr ''join_room''), (''roomId'', r)]) st of
        (Some e, st1) \<Rightarrow> (Raised e, st1)
      | (None, st1) \<Rightarrow> awaitOnce ''room_joined'' CbResolve (st1\<lparr>roomId := r\<rparr>))"

definition success :: jsval where
  "success = JObj [(''success'', JBool True)]"

definition orDefault :: "jsval \<Rightarrow> jsval \<Rightarrow> jsval" where
  "orDefault v dflt = (if v = JUndefined then dflt else v)"

definition sendMessage :: "jsval \<Rightarrow> jsval \<Rightarrow> sdk \<Rightarrow> jsval completion \<times> sdk" where
  "sendMessage content ty st =
     (if orDefault ty (JStr ''text'') = JStr ''text''
      then (case send (JObj [(''type'', JStr ''text_message''), (''content'', content)]) st of
              (Some e, st1) \<Rightarrow> (Raised e, st1)
            | (None, st1) \<Rightarrow> (Returned success, st1))
      else (Returned success, st))"

definition sendImage :: "jsval \<Rightarrow> jsval \<Rightarrow> jsval \<Rightarrow> sdk \<Rightarrow> jsval completion \<times> sdk" where
  "sendImage filename base64Data caption st =
     (case send (JObj [(''type'', JStr ''image_message''), (''filename'', filename),
                       (''data'', base64Data), (''caption'', orDefault caption (JStr []))]) st of
        (Some e, st1) \<Rightarrow> (Raised e, st1)
      | (None, st1) \<Rightarrow> (Returned success, st1))"

definition uploadFile ::
  "jsval \<Rightarrow> jsval \<Rightarrow> jsval \<Rightarrow> jsval \<Rightarrow> sdk \<Rightarrow> jsval completion \<times> sdk" where
  "uploadFile filename base64Data path description st =
     (case send (JObj [(''type'', JStr ''file_upload_complete''), (''filename'', filename),
                       (''data'', base64Data), (''path'', orDefault path (JStr [])),
                       (''description'', orDefault description (JStr []))]) st of
        (Some e, st1) \<Rightarrow> (Raised e, st1)
      | (None, st1) \<Rightarrow> (Returned success, st1))"

definition getMessages :: "jsval \<Rightarrow> jsval \<Rightarrow> sdk \<Rightarrow> jsval completion \<times> sdk" where
  "getMessages limit before st =
     (case send (JObj [(''type'', JStr ''get_messages''), (''limit'', orDefault limit (JNum 50)),
                       (''before'', orDefault before JNull)]) st of
        (Some e, st1) \<Rightarrow> (Raised e, st1)
      | (None, st1) \<Rightarrow> awaitOnce ''message_history'' CbMessages st1)"

definition getFiles :: "jsval \<Rightarrow> sdk \<Rightarrow> jsval completion \<times> sdk" where
  "getFiles path st =
     (case send (JObj [(''type'', JStr ''get_files''), (''path'', orDefault path (JStr []))]) st of
        (Some e, st1) \<Rightarrow> (Raised e, st1)
      | (None, st1) \<Rightarrow> awaitOnce ''file_list'' CbFiles st1)"

definition broadcastState :: "int \<Rightarrow> jsval \<Rightarrow> jsval \<Rightarrow> sdk \<Rightarrow> jsval completion \<times> sdk" where
  "broadcastState now appName state st =
     (case send (JObj [(''type'', JStr ''app_state_broadcast''), (''appName'', appName),
                       (''state'', state), (''timestamp'', JNum now)]) st of
        (Some e, st1) \<Rightarrow> (Raised e, st1)
      | (None, st1) \<Rightarrow> (Returned JUndefined, st1))"

definition getState :: "sdk \<Rightarrow> jsval" where
  "getState st =
     JObj [(''connected'', JBool (connected st)), (''clientId'', clientId st),
           (''roomId'', roomId st), (''user'', user st)]"

section \<open>Predicates, invariants and scenarios used by the properties\<close>

text \<open>The guard of \<open>send\<close>, negated: the client holds a socket whose state is \<open>OPEN\<close>.\<close>

definition transport_open :: "sdk \<Rightarrow> bool" where
  "transport_open st =
     (case ws st of
        None \<Rightarrow> False
      | Some s \<Rightarrow> (case sockets st s of None \<Rightarrow> False | Some sock \<Rightarrow> ready sock = OPEN))"

text \<open>The state changes a handler can cause, one at a time. An emission is a sequence of
  them (lemma \<open>emit_steps\<close>), so what each of them preserves, every emission preserves.\<close>

inductive prim :: "sdk \<Rightarrow> sdk \<Rightarrow> bool" where
  prim_on: "prim st (snd (on e h st))"
| prim_off: "prim st (off e h st)"
| prim_once: "prim st (snd (once e cb st))"
| prim_disconnect: "prim st (disconnect st)"
| prim_connect: "prim st (snd (connect tok st))"
| prim_called: "prim st (st\<lparr>calls := calls st @ [c]\<rparr>)"
| prim_resolve: "prim st (resolve p v st)"
| prim_identity: "prim st (st\<lparr>clientId := a, user := b\<rparr>)"

definition steps_only :: "emitter option \<Rightarrow> bool" where
  "steps_only nested =
     (case nested of None \<Rightarrow> True | Some em \<Rightarrow> (\<forall>e x s. prim\<^sup>*\<^sup>* s (em e x s)))"

text \<open>The pending timeouts are exactly the one \<open>reconnectTimer\<close> refers to, if any.\<close>

definition timer_inv :: "sdk \<Rightarrow> bool" where
  "timer_inv st =
     (case reconnectTimer st of
        None \<Rightarrow> timers st = []
      | Some t \<Rightarrow> map fst (timers st) = [t])"

text \<open>A sequence of close events: the \<open>onclose\<close> callbacks of the sockets that close, each
  with the token its \<open>connect\<close> call captured.\<close>

definition closes :: "nat \<Rightarrow> program \<Rightarrow> string option list \<Rightarrow> sdk \<Rightarrow> sdk" where
  "closes d H toks st = foldl (\<lambda>s tok. ws_onclose d H tok s) st toks"




text \<open>A record read as a finite map, for equality of records up to the order of their keys.\<close>

definition fields :: "jsval \<Rightarrow> string \<rightharpoonup> jsval" where
  "fields v = (case v of JObj kvs \<Rightarrow> map_of kvs | _ \<Rightarrow> Map.empty)"

subsection \<open>The values the codec preserves\<close>

text \<open>
  Plain data: no \<open>undefined\<close> anywhere, integers that a JavaScript number holds exactly,
  records with distinct keys none of which is written with digits only (JavaScript
  enumerates array-index keys first, whatever their insertion order).
\<close>

definition digits_only :: "string \<Rightarrow> bool" where
  "digits_only k = (k \<noteq> [] \<and> list_all is_digit k)"

fun json_safe :: "jsval \<Rightarrow> bool"
  and safe_elems :: "jsval list \<Rightarrow> bool"
  and safe_members :: "(string \<times> jsval) list \<Rightarrow> bool" where
  "json_safe JUndefined = False"
| "json_safe JNull = True"
| "json_safe (JBool b) = True"
| "json_safe (JNum i) = (\<bar>i\<bar> \<le> 9007199254740991)"
| "json_safe (JDec m k) = False"
| "json_safe (JStr s) = True"
| "json_safe (JArr vs) = safe_elems vs"
| "json_safe (JObj kvs) = (distinct (map fst kvs) \<and> safe_members kvs)"
| "safe_elems [] = True"
| "safe_elems (v # vs) = (json_safe v \<and> safe_elems vs)"
| "safe_members [] = True"
| "safe_members ((k, v) # kvs) = (\<not> digits_only k \<and> json_safe v \<and> safe_members kvs)"

text \<open>What may follow a serialised value inside a text, and what a value can start with.\<close>

definition tail_ok :: "string \<Rightarrow> bool" where
  "tail_ok rest = (rest = [] \<or> hd rest = CHR '','' \<or> hd rest = CHR '']'' \<or> hd rest = CHR ''}'')"

definition first_ok :: "char \<Rightarrow> bool" where
  "first_ok c = (\<not> is_ws c \<and> c \<noteq> CHR '']'' \<and> c \<noteq> CHR ''}'')"

definition reads_back :: "jsval \<Rightarrow> bool" where
  "reads_back v =
     (\<forall>f rest. 2 * length (ser v) \<le> f \<longrightarrow> tail_ok rest \<longrightarrow>
        p_value f (ser v @ rest) = Inr (v, rest))"



text \<open>
  The states a client can be in: built by the constructor, then driven by events of the
  environment and by calls of the public methods, in any order.
\<close>

inductive reachable :: "nat \<Rightarrow> program \<Rightarrow> sdk \<Rightarrow> bool" for d :: nat and H :: program where
  reach_new: "reachable d H (ZellousSDK opts)"
| reach_event: "reachable d H st \<Longrightarrow> reachable d H (deliver d H ev st)"
| reach_connect: "reachable d H st \<Longrightarrow> reachable d H (snd (connect tok st))"
| reach_disconnect: "reachable d H st \<Longrightarrow> reachable d H (disconnect st)"
| reach_on: "reachable d H st \<Longrightarrow> reachable d H (snd (on e (Plain (UserFn i)) st))"
| reach_once: "reachable d H st \<Longrightarrow> reachable d H (snd (once e (UserFn i) st))"
| reach_off: "reachable d H st \<Longrightarrow> reachable d H (off e h st)"
| reach_emit: "reachable d H st \<Longrightarrow> reachable d H (emit d H e x st)"
| reach_joinRoom: "reachable d H st \<Longrightarrow> reachable d H (snd (joinRoom r st))"
| reach_sendMessage: "reachable d H st \<Longrightarrow> reachable d H (snd (sendMessage content ty st))"
| reach_sendImage: "reachable d H st \<Longrightarrow> reachable d H (snd (sendImage f b c st))"
| reach_uploadFile: "reachable d H st \<Longrightarrow> reachable d H (snd (uploadFile f b p c st))"
| reach_getMessages: "reachable d H st \<Longrightarrow> reachable d H (snd (getMessages l b st))"
| reach_getFiles: "reachable d H st \<Longrightarrow> reachable d H (snd (getFiles p st))"
| reach_broadcastState: "reachable d H st \<Longrightarrow> reachable d H (snd (broadcastState now a s st))"

subsection \<open>Concrete clients\<close>

definition idle :: program where
  "idle i x = []"


definition defaults :: options where
  "defaults = \<lparr>opt_serverUrl = None, opt_autoReconnect = None, opt_reconnectDelay = None\<rparr>"

definition new_client :: sdk where
  "new_client = ZellousSDK defaults"

text \<open>\<open>new ZellousSDK()\<close>, then \<open>connect()\<close> (promise 1, socket 2, one-shot wrapper 3), then
  the socket's open event.\<close>

definition open_client :: sdk where
  "open_client = deliver 0 idle (Open 2) (snd (connect None new_client))"

definition re_emitter :: program where
  "re_emitter i x = [DoEmit ''E'' x]"

definition four_once :: sdk where
  "four_once =
     snd (once ''E'' (UserFn 3) (snd (once ''E'' (UserFn 2)
       (snd (once ''E'' (UserFn 1) (snd (once ''E'' (UserFn 0) new_client)))))))"


definition with_error_listener :: sdk where
  "with_error_listener = snd (on ''error'' (Plain (UserFn 9)) open_client)"

definition with_user_joined_listeners :: sdk where
  "with_user_joined_listeners =
     snd (on ''user_presence'' (Plain (UserFn 2))
       (snd (on ''message'' (Plain (UserFn 1))
         (snd (on ''user_joined'' (Plain (UserFn 0)) open_client)))))"

definition user_joined_7 :: jsval where
  "user_joined_7 =
     JObj [(''type'', JStr ''user_joined''), (''userId'', JNum 7),
           (''user'', JObj [(''username'', JStr ''al'')])]"

definition join_room_r1 :: jsval where
  "join_room_r1 = JObj [(''type'', JStr ''join_room''), (''roomId'', JStr ''r1'')]"

definition broadcast_sample :: jsval where
  "broadcast_sample =
     JObj [(''type'', JStr ''app_state_broadcast''), (''appName'', JStr ''flow-editor''),
           (''state'', JObj [(''selectedNode'', JNull), (''tags'', JArr [JStr [CHR 0x22, CHR ''a'', CHR 0x0A], JBool True]),
                             (''cursorPosition'', JObj [(''x'', JNum 100), (''y'', JNum (- 200))])]),
           (''timestamp'', JNum 1700000000000), (''userId'', JNum 7)]"

section \<open>Properties\<close>

subsection \<open>Emission as a sequence of primitive steps\<close>

lemma emit_unfold: "emit d H = emit_from (case d of 0 \<Rightarrow> None | Suc n \<Rightarrow> Some (emit n H)) H"
  by (cases d) simp_all

lemma emit_no_listeners: "listeners st event = None \<Longrightarrow> emit d H event x st = st"
  by (simp add: emit_unfold emit_from_def)

lemma ids:
  "(2::nat) = Suc (Suc 0)"
  "(4::nat) = Suc (Suc (Suc (Suc 0)))"
  "(6::nat) = Suc (Suc (Suc (Suc (Suc (Suc 0)))))"
  by simp_all

lemmas client_defs =
  new_client_def defaults_def ZellousSDK_def connect_def once_def on_def off_def disconnect_def
  ws_close_def clearTimeout_def open_client_def

lemma run_steps:
  assumes "steps_only nested"
  shows "prim\<^sup>*\<^sup>* st (snd (run nested as st))"
proof (induction as arbitrary: st)
  case Nil
  show ?case by simp
next
  case (Cons a as)
  show ?case
  proof (cases a)
    case Throw
    then show ?thesis by simp
  next
    case (DoEmit e x)
    show ?thesis
    proof (cases nested)
      case None
      with DoEmit show ?thesis by simp
    next
      case (Some em)
      with assms have "prim\<^sup>*\<^sup>* st (em e x st)" by (simp add: steps_only_def)
      also have "prim\<^sup>*\<^sup>* (em e x st) (snd (run nested as (em e x st)))" by (rule Cons.IH)
      finally show ?thesis using DoEmit Some by simp
    qed
  next
    case (DoOn e i)
    have "prim st (snd (on e (Plain (UserFn i)) st))" by (rule prim_on)
    with Cons.IH [of "snd (on e (Plain (UserFn i)) st)"] DoOn show ?thesis
      by (simp add: converse_rtranclp_into_rtranclp)
  next
    case (DoOff e i)
    have "prim st (off e (Plain (UserFn i)) st)" by (rule prim_off)
    with Cons.IH [of "off e (Plain (UserFn i)) st"] DoOff show ?thesis
      by (simp add: converse_rtranclp_into_rtranclp)
  next
    case (DoOnce e i)
    have "prim st (snd (once e (UserFn i) st))" by (rule prim_once)
    with Cons.IH [of "snd (once e (UserFn i) st)"] DoOnce show ?thesis
      by (simp add: converse_rtranclp_into_rtranclp)
  next
    case DoDisconnect
    have "prim st (disconnect st)" by (rule prim_disconnect)
    with Cons.IH [of "disconnect st"] DoDisconnect show ?thesis
      by (simp add: converse_rtranclp_into_rtranclp)
  next
    case (DoConnect tok)
    have "prim st (snd (connect tok st))" by (rule prim_connect)
    with Cons.IH [of "snd (connect tok st)"] DoConnect show ?thesis
      by (simp add: converse_rtranclp_into_rtranclp)
  qed
qed

lemma invoke_steps:
  assumes "steps_only nested"
  shows "prim\<^sup>*\<^sup>* st (snd (invoke nested H cb x st))"
proof (cases cb)
  case (UserFn i)
  have "prim st (st\<lparr>calls := calls st @ [(i, x)]\<rparr>)" by (rule prim_called)
  moreover have "prim\<^sup>*\<^sup>* (st\<lparr>calls := calls st @ [(i, x)]\<rparr>)
      (snd (run nested (H i x) (st\<lparr>calls := calls st @ [(i, x)]\<rparr>)))"
    by (rule run_steps [OF assms])
  ultimately show ?thesis using UserFn
    by (simp add: invoke_def converse_rtranclp_into_rtranclp)
next
  case (CbConnect p)
  have "prim st (st\<lparr>clientId := get x ''clientId'', user := get x ''user''\<rparr>)"
    by (rule prim_identity)
  moreover have "prim (st\<lparr>clientId := get x ''clientId'', user := get x ''user''\<rparr>)
      (resolve p x (st\<lparr>clientId := get x ''clientId'', user := get x ''user''\<rparr>))"
    by (rule prim_resolve)
  ultimately show ?thesis using CbConnect by (auto simp: invoke_def)
next
  case (CbResolve p)
  then show ?thesis by (auto simp: invoke_def intro: prim_resolve)
next
  case (CbMessages p)
  then show ?thesis by (auto simp: invoke_def intro: prim_resolve)
next
  case (CbFiles p)
  then show ?thesis by (auto simp: invoke_def intro: prim_resolve)
qed

lemma call_steps:
  assumes "steps_only nested"
  shows "prim\<^sup>*\<^sup>* st (snd (call nested H h x st))"
proof (cases h)
  case (Plain cb)
  then show ?thesis by (simp add: call_def invoke_steps [OF assms])
next
  case (OnceWrapper w e cb)
  have "prim st (off e h st)" by (rule prim_off)
  moreover have "prim\<^sup>*\<^sup>* (off e h st) (snd (invoke nested H cb x (off e h st)))"
    by (rule invoke_steps [OF assms])
  ultimately show ?thesis using OnceWrapper
    by (simp add: call_def converse_rtranclp_into_rtranclp)
qed

lemma forEach_steps:
  assumes "steps_only nested"
  shows "prim\<^sup>*\<^sup>* st (forEach nested H event x k n st)"
proof (induction n arbitrary: k st)
  case 0
  show ?case by simp
next
  case (Suc n)
  show ?case
  proof (cases "listeners st event")
    case None
    then show ?thesis by simp
  next
    case (Some hs)
    show ?thesis
    proof (cases "k < length hs")
      case True
      have "prim\<^sup>*\<^sup>* st (snd (call nested H (hs ! k) x st))" by (rule call_steps [OF assms])
      also have "prim\<^sup>*\<^sup>* (snd (call nested H (hs ! k) x st))
          (forEach nested H event x (Suc k) n (snd (call nested H (hs ! k) x st)))"
        by (rule Suc.IH)
      finally show ?thesis using Some True by simp
    next
      case False
      with Some Suc.IH [of st "Suc k"] show ?thesis by simp
    qed
  qed
qed

lemma emit_from_steps:
  "steps_only nested \<Longrightarrow> prim\<^sup>*\<^sup>* st (emit_from nested H event x st)"
  by (simp add: emit_from_def forEach_steps split: option.splits)

lemma emit_steps: "prim\<^sup>*\<^sup>* st (emit d H event x st)"
proof (induction d arbitrary: st event x)
  case 0
  show ?case by (simp add: emit_from_steps steps_only_def)
next
  case (Suc d)
  then show ?case by (simp add: emit_from_steps steps_only_def)
qed

lemma emit_invariant:
  assumes step: "\<And>s s'. prim s s' \<Longrightarrow> P s \<Longrightarrow> P s'" and init: "P st"
  shows "P (emit d H event x st)"
proof -
  have "prim\<^sup>*\<^sup>* st (emit d H event x st)" by (rule emit_steps)
  then show ?thesis using init
    by (induction rule: rtranclp_induct) (auto intro: step)
qed

lemma prim_timer_inv: "prim s s' \<Longrightarrow> timer_inv s \<Longrightarrow> timer_inv s'"
  by (induction rule: prim.induct)
     (auto simp: timer_inv_def on_def off_def once_def disconnect_def connect_def resolve_def
        clearTimeout_def ws_close_def Let_def split: option.splits)

lemma prim_autoReconnect: "prim s s' \<Longrightarrow> autoReconnect s' = autoReconnect s"
  by (induction rule: prim.induct)
     (auto simp: on_def off_def once_def disconnect_def connect_def resolve_def
        clearTimeout_def ws_close_def Let_def split: option.splits)

lemma prim_roomId: "prim s s' \<Longrightarrow> roomId s' = roomId s"
  by (induction rule: prim.induct)
     (auto simp: on_def off_def once_def disconnect_def connect_def resolve_def
        clearTimeout_def ws_close_def Let_def split: option.splits)

lemma emit_timer_inv: "timer_inv st \<Longrightarrow> timer_inv (emit d H event x st)"
  by (rule emit_invariant [where P = timer_inv]) (auto intro: prim_timer_inv)

lemma emit_autoReconnect: "autoReconnect (emit d H event x st) = autoReconnect st"
  by (rule emit_invariant [where P = "\<lambda>s. autoReconnect s = autoReconnect st"])
     (auto simp: prim_autoReconnect)

lemma emit_roomId: "roomId (emit d H event x st) = roomId st"
  by (rule emit_invariant [where P = "\<lambda>s. roomId s = roomId st"]) (auto simp: prim_roomId)

lemma emit_empty: "listeners st event = Some [] \<Longrightarrow> emit d H event x st = st"
  by (simp add: emit_unfold emit_from_def)
subsection \<open>Explicit disconnect and the reconnect policy\<close>

text \<open>
  C1. The claim: after \<open>disconnect()\<close>, a close event never schedules a reconnect, even when
  auto-reconnect is enabled. The code does not keep that promise. \<open>disconnect\<close> clears the
  timer, closes the socket and forgets it, but the socket's \<open>onclose\<close> callback stays
  attached and tests only \<open>autoReconnect\<close> and \<open>reconnectTimer\<close>, which \<open>disconnect\<close> has just
  set to \<open>null\<close>. On a client built with the default options, connected and opened, then
  disconnected, the close event of the socket schedules timer 4 with the default delay, and
  when that timer fires the client opens socket 6.
\<close>

theorem disconnect_then_close_schedules_reconnect:
  "reconnectTimer (deliver d H (Close 2) (disconnect open_client)) = Some 4 \<and>
   timers (deliver d H (Close 2) (disconnect open_client)) = [(4, 3000, None)] \<and>
   ws (deliver d H (Timeout 4) (deliver d H (Close 2) (disconnect open_client))) = Some 6"
  by (simp add: client_defs ws_onopen_def ws_onclose_def setTimeout_def reconnect_def
      emit_unfold [of d] emit_from_def Let_def ids)


text \<open>The same in general: \<open>disconnect\<close> leaves no timer behind, and with auto-reconnect enabled
  every close event, after \<open>disconnect\<close> or not, ends with a reconnect timer pending.\<close>

lemma close_always_leaves_a_timer:
  assumes "autoReconnect st"
  shows "reconnectTimer (ws_onclose d H tok st) \<noteq> None"
proof -
  have "autoReconnect (emit d H ''disconnected'' JUndefined (st\<lparr>connected := False\<rparr>))"
    using assms by (simp add: emit_autoReconnect)
  then show ?thesis by (auto simp: ws_onclose_def Let_def setTimeout_def)
qed

lemma disconnect_autoReconnect: "autoReconnect (disconnect st) = autoReconnect st"
  by (simp add: disconnect_def ws_close_def clearTimeout_def Let_def split: option.splits)

lemma close_after_disconnect_reconnects:
  "autoReconnect st \<Longrightarrow> reconnectTimer (disconnect st) = None \<and>
     reconnectTimer (ws_onclose d H tok (disconnect st)) \<noteq> None"
  by (simp add: close_always_leaves_a_timer disconnect_autoReconnect)
     (simp add: disconnect_def ws_close_def clearTimeout_def Let_def split: option.splits)
subsection \<open>Room membership\<close>

text \<open>
  C2, as the claim states it, fails: on an open transport \<open>joinRoom('r1')\<close> assigns
  \<open>roomId\<close> at once, before any message has been received.
\<close>

theorem joinRoom_sets_roomId_before_confirmation:
  "roomId open_client = JNull \<and>
   roomId (snd (joinRoom (JStr ''r1'') open_client)) = JStr ''r1''"
  by (simp add: joinRoom_def send_def awaitOnce_def client_defs ws_onopen_def emit_from_def
      Let_def ids)

lemma send_closed: "\<not> transport_open st \<Longrightarrow> send m st = (Some NotConnected, st)"
  by (auto simp: send_def transport_open_def split: option.splits)

lemma send_open:
  "transport_open st \<Longrightarrow> \<exists>st1. send m st = (None, st1) \<and> roomId st1 = roomId st"
  by (auto simp: send_def transport_open_def split: option.splits)

lemma new_client_closed: "\<not> transport_open new_client"
  by (simp add: transport_open_def client_defs)

lemma open_client_open: "transport_open open_client"
  by (simp add: transport_open_def client_defs ws_onopen_def emit_from_def)

lemma handleMessage_room_joined:
  "get msg ''type'' = JStr ''room_joined'' \<Longrightarrow>
   roomId (snd (handleMessage d H msg st)) = get msg ''roomId''"
  by (auto simp: handleMessage_def Let_def nullish_def get_def)

lemma handleMessage_other:
  "get msg ''type'' \<noteq> JStr ''room_joined'' \<Longrightarrow>
   roomId (snd (handleMessage d H msg st)) = roomId st"
  by (auto simp: handleMessage_def Let_def emit_any_def emit_roomId split: jsval.splits)

text \<open>
  C2, amended. \<open>roomId\<close> is assigned in two places: by \<open>joinRoom\<close>, to the requested room, as
  soon as the \<open>join_room\<close> request has been transmitted, and by the router, to the message's
  \<open>roomId\<close>, on every \<open>room_joined\<close> message. \<open>joinRoom\<close> without an open transport fails and
  leaves the client as it was, and no other inbound message changes \<open>roomId\<close>.
\<close>

theorem roomId_assignment:
  "(transport_open st \<longrightarrow> roomId (snd (joinRoom r st)) = r) \<and>
   (\<not> transport_open st \<longrightarrow> joinRoom r st = (Raised NotConnected, st)) \<and>
   (get msg ''type'' = JStr ''room_joined'' \<longrightarrow>
      roomId (snd (handleMessage d H msg st)) = get msg ''roomId'') \<and>
   (get msg ''type'' \<noteq> JStr ''room_joined'' \<longrightarrow>
      roomId (snd (handleMessage d H msg st)) = roomId st)"
proof -
  have "roomId (snd (joinRoom r st)) = r" if "transport_open st"
  proof -
    from send_open [OF that] obtain st1
      where "send (JObj [(''type'', JStr ''join_room''), (''roomId'', r)]) st = (None, st1)"
      by blast
    then show ?thesis by (simp add: joinRoom_def awaitOnce_def once_def on_def Let_def)
  qed
  then show ?thesis
    by (simp add: handleMessage_room_joined handleMessage_other send_closed joinRoom_def)
qed

theorem roomId_assignment_witness:
  "transport_open open_client \<and> roomId (snd (joinRoom (JStr ''r1'') open_client)) = JStr ''r1'' \<and>
   \<not> transport_open new_client \<and>
   joinRoom (JStr ''r1'') new_client = (Raised NotConnected, new_client) \<and>
   get (JObj [(''type'', JStr ''room_joined''), (''roomId'', JStr ''r2'')]) ''type'' =
     JStr ''room_joined'' \<and>
   roomId (snd (handleMessage 0 idle
       (JObj [(''type'', JStr ''room_joined''), (''roomId'', JStr ''r2'')]) open_client)) = JStr ''r2'' \<and>
   get user_joined_7 ''type'' \<noteq> JStr ''room_joined'' \<and>
   roomId (snd (handleMessage 0 idle user_joined_7 open_client)) = roomId open_client"
  using roomId_assignment [of open_client "JStr ''r1''"
      "JObj [(''type'', JStr ''room_joined''), (''roomId'', JStr ''r2'')]" 0 idle]
    roomId_assignment [of new_client "JStr ''r1''" user_joined_7 0 idle]
    roomId_assignment [of open_client "JStr ''r1''" user_joined_7 0 idle]
    open_client_open new_client_closed
  by (simp add: get_def user_joined_7_def)

subsection \<open>Undecodable payloads\<close>

text \<open>A text the reader does not accept is rejected with \<open>SyntaxError\<close>, whatever its
  length and nesting: what the reader returns is shorter than what it was given, so the
  depth \<open>JSON_parse\<close> allows is never used up.\<close>

lemma with_chars_Inr:
  "with_chars cs r = Inr (x, rest) \<Longrightarrow> \<exists>y. r = Inr (y, rest)"
  by (auto simp: with_chars_def split: sum.splits)

lemma with_chars_Inl: "with_chars cs r = Inl e \<Longrightarrow> r = Inl e"
  by (auto simp: with_chars_def split: sum.splits)

lemma p_string_shorter: "p_string s = Inr (x, rest) \<Longrightarrow> length rest < length s"
proof (induction s arbitrary: x rule: p_string.induct)
  case 1
  then show ?case by simp
next
  case (2 c cs)
  show ?case
  proof (cases "c = CHR 0x22")
    case True
    with 2(5) show ?thesis by simp
  next
    case q: False
    show ?thesis
    proof (cases "c = CHR 0x5C")
      case False
      with q 2(5) obtain y where "p_string cs = Inr (y, rest)"
        by (auto split: if_splits dest: with_chars_Inr)
      with 2(4) [OF q False] q False 2(5) show ?thesis
        by (auto split: if_splits)
    next
      case b: True
      show ?thesis
      proof (cases cs)
        case Nil
        with q b 2(5) show ?thesis by simp
      next
        case (Cons e cs1)
        show ?thesis
        proof (cases "e = CHR ''u''")
          case False
          with q b Cons 2(5) obtain y where "p_string cs1 = Inr (y, rest)"
            by (auto split: option.splits dest: with_chars_Inr)
          moreover from q b Cons False 2(5) obtain ch where "unescape e = Some ch"
            by (auto split: option.splits)
          ultimately show ?thesis
            using 2(3) [OF q b Cons False] Cons by fastforce
        next
          case u: True
          from q b Cons u 2(5) obtain h1 h2 h3 h4 cs2 n
            where cs1: "cs1 = h1 # h2 # h3 # h4 # cs2" and n: "hex4 h1 h2 h3 h4 = Some n"
            by (auto split: list.splits option.splits)
          show ?thesis
          proof (cases "pair_with n cs2")
            case None
            with q b Cons u cs1 n 2(5) obtain y where "p_string cs2 = Inr (y, rest)"
              by (auto dest: with_chars_Inr)
            with 2(1) [OF q b Cons u cs1 refl refl refl n None] Cons cs1 show ?thesis by fastforce
          next
            case (Some cp)
            with q b Cons u cs1 n 2(5) obtain y where "p_string (drop 6 cs2) = Inr (y, rest)"
              by (auto dest: with_chars_Inr)
            with 2(2) [OF q b Cons u cs1 refl refl refl n Some] Cons cs1 show ?thesis by fastforce
          qed
        qed
      qed
    qed
  qed
qed

lemma p_string_error: "p_string s = Inl err \<Longrightarrow> err = SyntaxError"
proof (induction s rule: p_string.induct)
  case 1
  then show ?case by simp
next
  case (2 c cs)
  show ?case
  proof (cases "c = CHR 0x22")
    case True
    with 2(5) show ?thesis by simp
  next
    case q: False
    show ?thesis
    proof (cases "c = CHR 0x5C")
      case False
      with q 2(5) 2(4) [OF q False] show ?thesis
        by (auto split: if_splits dest: with_chars_Inl)
    next
      case b: True
      show ?thesis
      proof (cases cs)
        case Nil
        with q b 2(5) show ?thesis by simp
      next
        case (Cons e cs1)
        show ?thesis
        proof (cases "e = CHR ''u''")
          case False
          with q b Cons 2(5) 2(3) [OF q b Cons False] show ?thesis
            by (auto split: option.splits dest: with_chars_Inl)
        next
          case u: True
          show ?thesis
          proof (cases "\<exists>h1 h2 h3 h4 cs2 n. cs1 = h1 # h2 # h3 # h4 # cs2 \<and> hex4 h1 h2 h3 h4 = Some n")
            case False
            with q b Cons u 2(5) show ?thesis
              by (auto split: list.splits option.splits)
          next
            case True
            then obtain h1 h2 h3 h4 cs2 n
              where cs1: "cs1 = h1 # h2 # h3 # h4 # cs2" and n: "hex4 h1 h2 h3 h4 = Some n"
              by blast
            show ?thesis
            proof (cases "pair_with n cs2")
              case None
              with q b Cons u cs1 n 2(5) have "p_string cs2 = Inl err"
                by (auto dest: with_chars_Inl)
              with 2(1) [OF q b Cons u cs1 refl refl refl n None] show ?thesis by simp
            next
              case (Some cp)
              with q b Cons u cs1 n 2(5) have "p_string (drop 6 cs2) = Inl err"
                by (auto dest: with_chars_Inl)
              with 2(2) [OF q b Cons u cs1 refl refl refl n Some] show ?thesis by simp
            qed
          qed
        qed
      qed
    qed
  qed
qed

lemma dropWhile_length: "length (dropWhile P xs) \<le> length xs"
  by (induction xs) auto

lemma skip_ws_length: "length (skip_ws s) \<le> length s"
  by (simp add: skip_ws_def dropWhile_length)

lemma p_frac_shorter: "p_frac r = Some (fs, r') \<Longrightarrow> length r' \<le> length r"
  using dropWhile_length [of is_digit "tl r"]
  by (auto simp: p_frac_def split: if_splits)

lemma p_exp_shorter: "p_exp r = Some (x, r') \<Longrightarrow> length r' \<le> length r"
proof -
  assume a: "p_exp r = Some (x, r')"
  have 1: "length (dropWhile is_digit (tl r)) \<le> length r"
    using dropWhile_length [of is_digit "tl r"] by simp
  have 2: "length (dropWhile is_digit (tl (tl r))) \<le> length r"
    using dropWhile_length [of is_digit "tl (tl r)"] by simp
  from a 1 2 show ?thesis
    by (auto simp: p_exp_def Let_def split: if_splits)
qed

lemma takeWhile_dropWhile_length:
  "takeWhile P xs \<noteq> [] \<Longrightarrow> length (dropWhile P xs) < length xs"
  by (cases xs) (auto simp: dropWhile_length less_Suc_eq_le split: if_splits)

lemma p_number_shorter:
  assumes "p_number s = Inr (v, rest)"
  shows "length rest < length s"
proof -
  define s1 where "s1 = (if s \<noteq> [] \<and> hd s = CHR ''-'' then tl s else s)"
  have s1: "length s1 \<le> length s" by (simp add: s1_def)
  from assms have ne: "takeWhile is_digit s1 \<noteq> []"
    by (auto simp: p_number_def Let_def s1_def split: if_splits)
  from assms obtain fs r x where f: "p_frac (dropWhile is_digit s1) = Some (fs, r)"
    and e: "p_exp r = Some (x, rest)"
    by (auto simp: p_number_def Let_def s1_def split: if_splits option.splits)
  from takeWhile_dropWhile_length [OF ne] p_frac_shorter [OF f] p_exp_shorter [OF e] s1
  show ?thesis by simp
qed

lemma p_number_error: "p_number s = Inl e \<Longrightarrow> e = SyntaxError"
  by (auto simp: p_number_def Let_def split: if_splits option.splits)

lemma skip_ws_Cons_length: "skip_ws s = c # r \<Longrightarrow> length r < length s"
  using skip_ws_length [of s] by simp

lemma p_shorter:
  "(\<forall>s v r. p_value f s = Inr (v, r) \<longrightarrow> length r < length s) \<and>
   (\<forall>s vs r. p_elems f s = Inr (vs, r) \<longrightarrow> length r < length s) \<and>
   (\<forall>s kvs r. p_members f s = Inr (kvs, r) \<longrightarrow> length r < length s)"
proof (induction f)
  case 0
  show ?case by simp
next
  case (Suc f)
  have V: "\<And>s v r. p_value f s = Inr (v, r) \<Longrightarrow> length r < length s"
    and E: "\<And>s vs r. p_elems f s = Inr (vs, r) \<Longrightarrow> length r < length s"
    and M: "\<And>s kvs r. p_members f s = Inr (kvs, r) \<Longrightarrow> length r < length s"
    using Suc by blast+
  have v: "length r < length s" if a: "p_value (Suc f) s = Inr (v, r)" for s v r
  proof (cases "skip_ws s")
    case Nil
    with a show ?thesis by simp
  next
    case (Cons c t)
    note len = skip_ws_Cons_length [OF Cons]
    consider (obj) "c = CHR ''{''" | (arr) "c \<noteq> CHR ''{''" "c = CHR ''[''"
      | (str) "c \<noteq> CHR ''{''" "c \<noteq> CHR ''[''" "c = CHR 0x22"
      | (num) "c \<noteq> CHR ''{''" "c \<noteq> CHR ''[''" "c \<noteq> CHR 0x22" "c = CHR ''-'' \<or> is_digit c"
      | (lit) "c \<noteq> CHR ''{''" "c \<noteq> CHR ''[''" "c \<noteq> CHR 0x22" "\<not> (c = CHR ''-'' \<or> is_digit c)"
      by blast
    then show ?thesis
    proof cases
      case obj
      show ?thesis
      proof (cases "skip_ws t")
        case Nil
        with a Cons obj show ?thesis by simp
      next
        case c1: (Cons c1 t1)
        show ?thesis
        proof (cases "c1 = CHR ''}''")
          case True
          with a Cons obj c1 have "r = t1" by simp
          with skip_ws_Cons_length [OF c1] len show ?thesis by simp
        next
          case False
          with a Cons obj c1 obtain kvs where "p_members f t = Inr (kvs, r)"
            by (auto split: sum.splits)
          from M [OF this] len show ?thesis by simp
        qed
      qed
    next
      case arr
      show ?thesis
      proof (cases "skip_ws t")
        case Nil
        with a Cons arr show ?thesis by simp
      next
        case c1: (Cons c1 t1)
        show ?thesis
        proof (cases "c1 = CHR '']''")
          case True
          with a Cons arr c1 have "r = t1" by simp
          with skip_ws_Cons_length [OF c1] len show ?thesis by simp
        next
          case False
          with a Cons arr c1 obtain vs where "p_elems f t = Inr (vs, r)"
            by (auto split: sum.splits)
          from E [OF this] len show ?thesis by simp
        qed
      qed
    next
      case str
      with a Cons obtain x where "p_string t = Inr (x, r)"
        by (auto split: sum.splits)
      from p_string_shorter [OF this] len show ?thesis by simp
    next
      case num
      with a Cons have "p_number (c # t) = Inr (v, r)" by auto
      from p_number_shorter [OF this] len show ?thesis by simp
    next
      case lit
      with a Cons have "r = drop 4 (c # t) \<or> r = drop 5 (c # t)"
        by (auto split: if_splits)
      with len show ?thesis by auto
    qed
  qed
  have e: "length r < length s" if a: "p_elems (Suc f) s = Inr (vs, r)" for s vs r
  proof -
    from a obtain v r0 where v0: "p_value f s = Inr (v, r0)"
      by (auto split: sum.splits)
    from a v0 obtain c r1 where sk: "skip_ws r0 = c # r1"
      by (cases "skip_ws r0") auto
    note l0 = V [OF v0] and l1 = skip_ws_Cons_length [OF sk]
    show ?thesis
    proof (cases "c = CHR '',''")
      case True
      with a v0 sk obtain vs' where "p_elems f r1 = Inr (vs', r)"
        by (auto split: sum.splits)
      from E [OF this] l0 l1 show ?thesis by simp
    next
      case False
      with a v0 sk have "r = r1" by (auto split: if_splits)
      with l0 l1 show ?thesis by simp
    qed
  qed
  have m: "length r < length s" if a: "p_members (Suc f) s = Inr (kvs, r)" for s kvs r
  proof -
    from a obtain c t where sk: "skip_ws s = c # t"
      by (cases "skip_ws s") auto
    from a sk have q: "c = CHR 0x22" by (auto split: if_splits)
    from a sk q obtain k r1 where ps: "p_string t = Inr (k, r1)"
      by (auto split: sum.splits)
    from a sk q ps obtain c1 r2 where sk1: "skip_ws r1 = c1 # r2"
      by (cases "skip_ws r1") auto
    from a sk q ps sk1 have col: "c1 = CHR '':''" by (auto split: if_splits)
    from a sk q ps sk1 col obtain v r3 where pv: "p_value f r2 = Inr (v, r3)"
      by (auto split: sum.splits)
    from a sk q ps sk1 col pv obtain c2 r4 where sk2: "skip_ws r3 = c2 # r4"
      by (cases "skip_ws r3") auto
    note l = skip_ws_Cons_length [OF sk] p_string_shorter [OF ps] skip_ws_Cons_length [OF sk1]
      V [OF pv] skip_ws_Cons_length [OF sk2]
    show ?thesis
    proof (cases "c2 = CHR '',''")
      case True
      with a sk q ps sk1 col pv sk2 obtain kvs' where "p_members f r4 = Inr (kvs', r)"
        by (auto split: sum.splits)
      from M [OF this] l show ?thesis by simp
    next
      case False
      with a sk q ps sk1 col pv sk2 have "r = r4" by (auto split: if_splits)
      with l show ?thesis by simp
    qed
  qed
  from v e m show ?case by blast
qed

lemma p_value_shorter: "p_value f s = Inr (v, r) \<Longrightarrow> length r < length s"
  using p_shorter [of f] by blast

lemma p_elems_shorter: "p_elems f s = Inr (vs, r) \<Longrightarrow> length r < length s"
  using p_shorter [of f] by blast

lemma p_members_shorter: "p_members f s = Inr (kvs, r) \<Longrightarrow> length r < length s"
  using p_shorter [of f] by blast

lemma p_errors:
  "(\<forall>s e. 2 * length s + 1 \<le> f \<longrightarrow> p_value f s = Inl e \<longrightarrow> e = SyntaxError) \<and>
   (\<forall>s e. 2 * length s + 2 \<le> f \<longrightarrow> p_elems f s = Inl e \<longrightarrow> e = SyntaxError) \<and>
   (\<forall>s e. 2 * length s + 2 \<le> f \<longrightarrow> p_members f s = Inl e \<longrightarrow> e = SyntaxError)"
proof (induction f)
  case 0
  show ?case by simp
next
  case (Suc f)
  have V: "\<And>s e. 2 * length s + 1 \<le> f \<Longrightarrow> p_value f s = Inl e \<Longrightarrow> e = SyntaxError"
    and E: "\<And>s e. 2 * length s + 2 \<le> f \<Longrightarrow> p_elems f s = Inl e \<Longrightarrow> e = SyntaxError"
    and M: "\<And>s e. 2 * length s + 2 \<le> f \<Longrightarrow> p_members f s = Inl e \<Longrightarrow> e = SyntaxError"
    using Suc by blast+
  have v: "e = SyntaxError"
    if b: "2 * length s + 1 \<le> Suc f" and a: "p_value (Suc f) s = Inl e" for s e
  proof (cases "skip_ws s")
    case Nil
    with a show ?thesis by simp
  next
    case (Cons c t)
    note len = skip_ws_Cons_length [OF Cons]
    consider (obj) "c = CHR ''{''" | (arr) "c \<noteq> CHR ''{''" "c = CHR ''[''"
      | (str) "c \<noteq> CHR ''{''" "c \<noteq> CHR ''[''" "c = CHR 0x22"
      | (num) "c \<noteq> CHR ''{''" "c \<noteq> CHR ''[''" "c \<noteq> CHR 0x22" "c = CHR ''-'' \<or> is_digit c"
      | (lit) "c \<noteq> CHR ''{''" "c \<noteq> CHR ''[''" "c \<noteq> CHR 0x22" "\<not> (c = CHR ''-'' \<or> is_digit c)"
      by blast
    then show ?thesis
    proof cases
      case obj
      show ?thesis
      proof (cases "skip_ws t")
        case Nil
        with a Cons obj show ?thesis by simp
      next
        case c1: (Cons c1 t1)
        show ?thesis
        proof (cases "c1 = CHR ''}''")
          case True
          with a Cons obj c1 show ?thesis by simp
        next
          case False
          with a Cons obj c1 have "p_members f t = Inl e"
            by (auto split: sum.splits)
          moreover from b len have "2 * length t + 2 \<le> f" by simp
          ultimately show ?thesis by (rule M [rotated])
        qed
      qed
    next
      case arr
      show ?thesis
      proof (cases "skip_ws t")
        case Nil
        with a Cons arr show ?thesis by simp
      next
        case c1: (Cons c1 t1)
        show ?thesis
        proof (cases "c1 = CHR '']''")
          case True
          with a Cons arr c1 show ?thesis by simp
        next
          case False
          with a Cons arr c1 have "p_elems f t = Inl e"
            by (auto split: sum.splits)
          moreover from b len have "2 * length t + 2 \<le> f" by simp
          ultimately show ?thesis by (rule E [rotated])
        qed
      qed
    next
      case str
      with a Cons have "p_string t = Inl e"
        by (auto split: sum.splits)
      then show ?thesis by (rule p_string_error)
    next
      case num
      with a Cons have "p_number (c # t) = Inl e" by auto
      then show ?thesis by (rule p_number_error)
    next
      case lit
      with a Cons show ?thesis
        by (auto split: if_splits)
    qed
  qed
  have e: "e = SyntaxError"
    if b: "2 * length s + 2 \<le> Suc f" and a: "p_elems (Suc f) s = Inl e" for s e
  proof (cases "p_value f s")
    case (Inl e')
    with a have "e' = e" by simp
    with Inl b show ?thesis by (intro V [of s e]) simp_all
  next
    case (Inr p)
    then obtain v r0 where v0: "p_value f s = Inr (v, r0)" by (cases p) simp
    note l0 = p_value_shorter [OF v0]
    show ?thesis
    proof (cases "skip_ws r0")
      case Nil
      with a v0 show ?thesis by simp
    next
      case (Cons c r1)
      note l1 = skip_ws_Cons_length [OF Cons]
      show ?thesis
      proof (cases "c = CHR '',''")
        case True
        with a v0 Cons have "p_elems f r1 = Inl e" by (auto split: sum.splits)
        moreover from b l0 l1 have "2 * length r1 + 2 \<le> f" by simp
        ultimately show ?thesis by (rule E [rotated])
      next
        case False
        with a v0 Cons show ?thesis by (auto split: if_splits)
      qed
    qed
  qed
  have m: "e = SyntaxError"
    if b: "2 * length s + 2 \<le> Suc f" and a: "p_members (Suc f) s = Inl e" for s e
  proof (cases "skip_ws s")
    case Nil
    with a show ?thesis by simp
  next
    case sk: (Cons c t)
    show ?thesis
    proof (cases "c = CHR 0x22")
      case False
      with a sk show ?thesis by simp
    next
      case q: True
      show ?thesis
      proof (cases "p_string t")
        case (Inl e')
        with a sk q have "e' = e" by simp
        with Inl show ?thesis by (intro p_string_error [of t e]) simp
      next
        case (Inr p)
        then obtain k r1 where ps: "p_string t = Inr (k, r1)" by (cases p) simp
        show ?thesis
        proof (cases "skip_ws r1")
          case Nil
          with a sk q ps show ?thesis by simp
        next
          case sk1: (Cons c1 r2)
          show ?thesis
          proof (cases "c1 = CHR '':''")
            case False
            with a sk q ps sk1 show ?thesis by simp
          next
            case col: True
            note l = skip_ws_Cons_length [OF sk] p_string_shorter [OF ps]
              skip_ws_Cons_length [OF sk1]
            show ?thesis
            proof (cases "p_value f r2")
              case (Inl e')
              with a sk q ps sk1 col have "e' = e" by simp
              with Inl b l show ?thesis by (intro V [of r2 e]) simp_all
            next
              case (Inr p')
              then obtain v r3 where pv: "p_value f r2 = Inr (v, r3)" by (cases p') simp
              note l3 = p_value_shorter [OF pv]
              show ?thesis
              proof (cases "skip_ws r3")
                case Nil
                with a sk q ps sk1 col pv show ?thesis by simp
              next
                case sk2: (Cons c2 r4)
                note l4 = skip_ws_Cons_length [OF sk2]
                show ?thesis
                proof (cases "c2 = CHR '',''")
                  case True
                  with a sk q ps sk1 col pv sk2 have "p_members f r4 = Inl e"
                    by (auto split: sum.splits)
                  moreover from b l l3 l4 have "2 * length r4 + 2 \<le> f" by simp
                  ultimately show ?thesis by (rule M [rotated])
                next
                  case False
                  with a sk q ps sk1 col pv sk2 show ?thesis by (auto split: if_splits)
                qed
              qed
            qed
          qed
        qed
      qed
    qed
  qed
  from v e m show ?case by blast
qed

lemma p_value_error:
  "2 * length s + 1 \<le> f \<Longrightarrow> p_value f s = Inl e \<Longrightarrow> e = SyntaxError"
  using p_errors [of f] by blast

lemma JSON_parse_error: "JSON_parse text = Inl e \<Longrightarrow> e = SyntaxError"
proof -
  assume a: "JSON_parse text = Inl e"
  show ?thesis
  proof (cases "p_value (2 * length text + 1) text")
    case (Inl e')
    with a have "e' = e" by (simp add: JSON_parse_def)
    with Inl have "p_value (2 * length text + 1) text = Inl e" by simp
    then show ?thesis by (rule p_value_error [rotated]) simp
  next
    case (Inr p)
    with a show ?thesis by (auto simp: JSON_parse_def split: prod.splits if_splits)
  qed
qed

lemma unpack_error: "unpack data = Inl e \<Longrightarrow> e = SyntaxError"
  by (cases data) (auto simp: unpack_def dest: JSON_parse_error)

lemma unpack_brace: "unpack (Text ''{'') = Inl SyntaxError"
  by code_simp

text \<open>
  C3, as the claim states it, fails in one part: the failure is not surfaced as an
  \<open>error\<close> event. With a listener registered on \<open>error\<close>, the frame \<open>{\<close> is rejected by the
  decoder and the listener is never called.
\<close>

theorem undecodable_message_raises_no_error_event:
  "unpack (Text ''{'') = Inl SyntaxError \<and>
   listeners with_error_listener ''error'' = Some [Plain (UserFn 9)] \<and>
   calls (deliver 0 idle (Message 2 (Text ''{'')) with_error_listener) = []"
  by (simp add: unpack_brace with_error_listener_def client_defs ws_onopen_def ws_onmessage_def
      emit_from_def ids)

lemma unpack_user_joined_7: "unpack (pack user_joined_7) = Inr user_joined_7"
  by code_simp

lemma listening_socket:
  "sockets with_user_joined_listeners 2 =
     Some \<lparr>url = ''ws://localhost:3000'', ready = OPEN, token = None, pending = 1, sent = []\<rparr>"
  by (simp add: with_user_joined_listeners_def client_defs ws_onopen_def emit_from_def ids)

text \<open>
  C3, amended. A payload that the decoder rejects, for whatever reason, is dropped: the
  decoder's error is a syntax error, the message callback fails with it before the router
  runs, no event at all is emitted and the client (connection, lifecycle flags,
  registrations) is exactly as before. Processing continues: a later payload that decodes,
  arriving on the open socket, is routed exactly as if the bad one had never arrived.
\<close>

theorem undecodable_message_is_dropped:
  assumes "unpack data = Inl e"
  shows "e = SyntaxError \<and>
         ws_onmessage d H data st = (Some e, st) \<and>
         deliver d H (Message s data) st = st \<and>
         (unpack later = Inr msg \<and> sockets st s = Some sock \<and> ready sock = OPEN \<longrightarrow>
            deliver d H (Message s later) (deliver d H (Message s data) st) =
              snd (handleMessage d H msg st))"
proof -
  have 0: "e = SyntaxError" using assms by (rule unpack_error)
  have 1: "ws_onmessage d H data st = (Some e, st)"
    using assms by (simp add: ws_onmessage_def)
  then have 2: "deliver d H (Message s data) st = st"
    by (simp split: option.splits)
  have "deliver d H (Message s later) st = snd (handleMessage d H msg st)"
    if "unpack later = Inr msg" "sockets st s = Some sock" "ready sock = OPEN"
    using that by (simp add: ws_onmessage_def)
  with 0 1 2 show ?thesis by simp
qed

theorem undecodable_message_is_dropped_witness:
  "unpack (Text ''{'') = Inl SyntaxError \<and>
   unpack (pack user_joined_7) = Inr user_joined_7 \<and>
   sockets with_user_joined_listeners 2 =
     Some \<lparr>url = ''ws://localhost:3000'', ready = OPEN, token = None, pending = 1, sent = []\<rparr> \<and>
   connected with_user_joined_listeners \<and>
   deliver 0 idle (Message 2 (Text ''{'')) with_user_joined_listeners =
     with_user_joined_listeners \<and>
   calls (deliver 0 idle (Message 2 (pack user_joined_7))
            (deliver 0 idle (Message 2 (Text ''{'')) with_user_joined_listeners)) =
     [(0, user_joined_7), (1, user_joined_7),
      (2, JObj [(''type'', JStr ''joined''), (''user'', JObj [(''username'', JStr ''al'')]),
                (''userId'', JNum 7)])]"
proof -
  have c: "connected with_user_joined_listeners"
    by (simp add: with_user_joined_listeners_def client_defs ws_onopen_def emit_from_def ids)
  have h: "calls (snd (handleMessage 0 idle user_joined_7 with_user_joined_listeners)) =
     [(0, user_joined_7), (1, user_joined_7),
      (2, JObj [(''type'', JStr ''joined''), (''user'', JObj [(''username'', JStr ''al'')]),
                (''userId'', JNum 7)])]"
    by (simp add: handleMessage_def Let_def emit_any_def nullish_def
        with_user_joined_listeners_def client_defs ws_onopen_def emit_from_def
        call_def invoke_def idle_def user_joined_7_def get_def)
  note t = undecodable_message_is_dropped [OF unpack_brace, of 0 idle with_user_joined_listeners 2
      "pack user_joined_7" user_joined_7
      "\<lparr>url = ''ws://localhost:3000'', ready = OPEN, token = None, pending = 1, sent = []\<rparr>"]
  from t have d: "deliver 0 idle (Message 2 (Text ''{'')) with_user_joined_listeners =
      with_user_joined_listeners"
    by blast
  have r: "ready \<lparr>url = ''ws://localhost:3000'', ready = OPEN, token = None, pending = 1,
      sent = []\<rparr> = OPEN"
    by simp
  from t unpack_user_joined_7 listening_socket r
  have "deliver 0 idle (Message 2 (pack user_joined_7))
          (deliver 0 idle (Message 2 (Text ''{'')) with_user_joined_listeners) =
        snd (handleMessage 0 idle user_joined_7 with_user_joined_listeners)"
    by blast
  with d unpack_brace unpack_user_joined_7 listening_socket c h show ?thesis
    by (simp del: deliver.simps)
qed

subsection \<open>One-shot handlers\<close>

text \<open>
  C4. The claim: a handler registered with \<open>once\<close> on \<open>E\<close> is called exactly once when
  \<open>E\<close> is emitted twice. The wrapper does remove itself before it calls the handler, but
  it removes itself from the very array \<open>emit\<close> is iterating over, so the handler that
  follows it moves down one index and is skipped by that emission. With four one-shot
  handlers 0, 1, 2, 3 registered in this order, the first emission calls 0 and 2, the
  second calls 1, and handler 3 has not been called at all.
\<close>

theorem fourth_one_shot_handler_is_skipped:
  "calls (emit d idle ''E'' x (emit d idle ''E'' x four_once)) = [(0, x), (2, x), (1, x)]"
  by (simp add: four_once_def client_defs idle_def emit_unfold [of d] emit_from_def call_def
      invoke_def ids)

text \<open>Where the one-shot handler is the only handler of its event the promise holds, also when
  the handler emits the event again: two emissions call it once.\<close>

lemma single_one_shot_handler_called_once:
  "calls (emit d re_emitter ''E'' x (emit d re_emitter ''E'' x
      (snd (once ''E'' (UserFn 0) new_client)))) = [(0, x)]"
  by (cases d)
     (simp_all add: client_defs emit_from_def call_def invoke_def re_emitter_def emit_empty)
subsection \<open>Handler isolation\<close>










subsection \<open>Derived events\<close>

text \<open>
  C7. Handling a \<open>user_joined\<close> message is three emissions in this order: the message
  under \<open>user_joined\<close>, the message under \<open>message\<close>, then the record
  \<open>{type: 'joined', user, userId}\<close> under \<open>user_presence\<close>.
\<close>

theorem user_joined_emissions:
  assumes "get msg ''type'' = JStr ''user_joined''"
  shows "handleMessage d H msg st =
           (None,
            emit d H ''user_presence''
              (JObj [(''type'', JStr ''joined''), (''user'', get msg ''user''),
                     (''userId'', get msg ''userId'')])
              (emit d H ''message'' msg (emit d H ''user_joined'' msg st)))"
  using assms by (auto simp: handleMessage_def Let_def emit_any_def nullish_def get_def)

theorem user_joined_emissions_witness:
  "get user_joined_7 ''type'' = JStr ''user_joined'' \<and>
   calls (snd (handleMessage 0 idle user_joined_7 with_user_joined_listeners)) =
     [(0, user_joined_7), (1, user_joined_7),
      (2, JObj [(''type'', JStr ''joined''), (''user'', JObj [(''username'', JStr ''al'')]),
                (''userId'', JNum 7)])] \<and>
   fields (JObj [(''type'', JStr ''joined''), (''user'', JObj [(''username'', JStr ''al'')]),
                 (''userId'', JNum 7)]) =
   fields (JObj [(''type'', JStr ''joined''), (''userId'', JNum 7),
                 (''user'', JObj [(''username'', JStr ''al'')])])"
proof -
  have t: "get user_joined_7 ''type'' = JStr ''user_joined''"
    by (simp add: user_joined_7_def get_def)
  have "fields (JObj [(''type'', JStr ''joined''), (''user'', JObj [(''username'', JStr ''al'')]),
                 (''userId'', JNum 7)]) =
   fields (JObj [(''type'', JStr ''joined''), (''userId'', JNum 7),
                 (''user'', JObj [(''username'', JStr ''al'')])])"
    by (auto simp: fields_def fun_eq_iff)
  with user_joined_emissions [OF t, of 0 idle with_user_joined_listeners] t show ?thesis
    by (simp add: with_user_joined_listeners_def client_defs ws_onopen_def emit_from_def
        call_def invoke_def idle_def user_joined_7_def get_def)
qed

subsection \<open>The reconnect timer\<close>

lemma ws_onclose_autoReconnect: "autoReconnect (ws_onclose d H tok st) = autoReconnect st"
  by (simp add: ws_onclose_def Let_def setTimeout_def emit_autoReconnect)

lemma ws_onclose_timer_inv:
  assumes "timer_inv st"
  shows "timer_inv (ws_onclose d H tok st)"
proof -
  let ?s1 = "emit d H ''disconnected'' JUndefined (st\<lparr>connected := False\<rparr>)"
  from assms have "timer_inv (st\<lparr>connected := False\<rparr>)"
    by (simp add: timer_inv_def split: option.splits)
  then have "timer_inv ?s1" by (rule emit_timer_inv)
  then show ?thesis
    by (auto simp: ws_onclose_def Let_def setTimeout_def timer_inv_def split: option.splits)
qed

lemma closes_snoc: "closes d H (toks @ [tok]) st = ws_onclose d H tok (closes d H toks st)"
  by (simp add: closes_def)

lemma closes_timer_inv: "timer_inv st \<Longrightarrow> timer_inv (closes d H toks st)"
  by (induction toks rule: rev_induct) (simp_all add: closes_def ws_onclose_timer_inv)

lemma closes_autoReconnect: "autoReconnect (closes d H toks st) = autoReconnect st"
  by (induction toks rule: rev_induct) (simp_all add: closes_def ws_onclose_autoReconnect)

lemma timer_inv_length: "timer_inv st \<Longrightarrow> length (timers st) = (if reconnectTimer st = None then 0 else 1)"
  by (auto simp: timer_inv_def split: option.splits dest: arg_cong [where f = length])

lemma timer_inv_frame:
  "timer_inv s \<Longrightarrow> timers s' = timers s \<Longrightarrow> reconnectTimer s' = reconnectTimer s \<Longrightarrow>
   timer_inv s'"
  by (simp add: timer_inv_def split: option.splits)

lemma send_cases:
  "send m st = (Some NotConnected, st) \<or>
   (\<exists>s sock. send m st = (None, st\<lparr>sockets := (sockets st)(s \<mapsto> sock)\<rparr>))"
  by (auto simp: send_def split: option.splits)

lemma awaitOnce_timers:
  "timers (snd (awaitOnce e cb st)) = timers st \<and>
   reconnectTimer (snd (awaitOnce e cb st)) = reconnectTimer st"
  by (simp add: awaitOnce_def once_def on_def Let_def)

lemma joinRoom_timers:
  "timers (snd (joinRoom r st)) = timers st \<and>
   reconnectTimer (snd (joinRoom r st)) = reconnectTimer st"
  using send_cases [of "JObj [(''type'', JStr ''join_room''), (''roomId'', r)]" st]
  by (auto simp: joinRoom_def awaitOnce_timers)

lemma sendMessage_timers:
  "timers (snd (sendMessage content ty st)) = timers st \<and>
   reconnectTimer (snd (sendMessage content ty st)) = reconnectTimer st"
  using send_cases [of "JObj [(''type'', JStr ''text_message''), (''content'', content)]" st]
  by (auto simp: sendMessage_def)

lemma sendImage_timers:
  "timers (snd (sendImage f b c st)) = timers st \<and>
   reconnectTimer (snd (sendImage f b c st)) = reconnectTimer st"
  using send_cases [of "JObj [(''type'', JStr ''image_message''), (''filename'', f),
                       (''data'', b), (''caption'', orDefault c (JStr []))]" st]
  by (auto simp: sendImage_def)

lemma uploadFile_timers:
  "timers (snd (uploadFile f b p c st)) = timers st \<and>
   reconnectTimer (snd (uploadFile f b p c st)) = reconnectTimer st"
  using send_cases [of "JObj [(''type'', JStr ''file_upload_complete''), (''filename'', f),
                       (''data'', b), (''path'', orDefault p (JStr [])),
                       (''description'', orDefault c (JStr []))]" st]
  by (auto simp: uploadFile_def)

lemma getMessages_timers:
  "timers (snd (getMessages l b st)) = timers st \<and>
   reconnectTimer (snd (getMessages l b st)) = reconnectTimer st"
  using send_cases [of "JObj [(''type'', JStr ''get_messages''), (''limit'', orDefault l (JNum 50)),
                       (''before'', orDefault b JNull)]" st]
  by (auto simp: getMessages_def awaitOnce_timers)

lemma getFiles_timers:
  "timers (snd (getFiles p st)) = timers st \<and>
   reconnectTimer (snd (getFiles p st)) = reconnectTimer st"
  using send_cases [of "JObj [(''type'', JStr ''get_files''), (''path'', orDefault p (JStr []))]" st]
  by (auto simp: getFiles_def awaitOnce_timers)

lemma broadcastState_timers:
  "timers (snd (broadcastState now a s st)) = timers st \<and>
   reconnectTimer (snd (broadcastState now a s st)) = reconnectTimer st"
  using send_cases [of "JObj [(''type'', JStr ''app_state_broadcast''), (''appName'', a),
                       (''state'', s), (''timestamp'', JNum now)]" st]
  by (auto simp: broadcastState_def)

lemma emit_any_timer_inv: "timer_inv st \<Longrightarrow> timer_inv (emit_any d H k x st)"
  by (cases k) (simp_all add: emit_any_def emit_timer_inv)

lemma handleMessage_timer_inv:
  assumes "timer_inv st"
  shows "timer_inv (snd (handleMessage d H msg st))"
proof -
  define s2 where "s2 = emit d H ''message'' msg (emit_any d H (get msg ''type'') msg st)"
  have s2: "timer_inv s2" using assms by (simp add: s2_def emit_any_timer_inv emit_timer_inv)
  have f1: "timer_inv (s2\<lparr>clientId := a, user := b\<rparr>)" for a b
    by (rule timer_inv_frame [OF s2]) simp_all
  have f2: "timer_inv (s2\<lparr>roomId := a\<rparr>)" for a
    by (rule timer_inv_frame [OF s2]) simp_all
  have f3: "timer_inv (emit d H e x s2)" for e x
    using s2 by (rule emit_timer_inv)
  show ?thesis
    unfolding handleMessage_def Let_def s2_def [symmetric]
    using assms s2 f1 f2 f3 by simp
qed

lemma find_timer: "find (\<lambda>(h, _). h = t) ts = Some entry \<Longrightarrow> t \<in> fst ` set ts"
  by (induction ts) (auto split: if_splits)

lemma deliver_timer_inv:
  assumes "timer_inv st"
  shows "timer_inv (deliver d H ev st)"
proof (cases ev)
  case (Open s)
  have "timer_inv (st\<lparr>sockets := m, connected := True\<rparr>)" for m
    by (rule timer_inv_frame [OF assms]) simp_all
  then show ?thesis using Open assms
    by (simp add: ws_onopen_def emit_timer_inv split: option.splits)
next
  case (Message s data)
  then show ?thesis using assms
    by (simp add: ws_onmessage_def handleMessage_timer_inv split: option.splits sum.splits)
next
  case (Error s err)
  have "timer_inv (reject p err s1)" if "timer_inv s1" for p s1
    by (rule timer_inv_frame [OF that]) (simp_all add: reject_def)
  then show ?thesis using Error assms
    by (simp add: ws_onerror_def emit_timer_inv split: option.splits)
next
  case (Close s)
  have "timer_inv (st\<lparr>sockets := m\<rparr>)" for m
    by (rule timer_inv_frame [OF assms]) simp_all
  then show ?thesis using Close assms
    by (simp add: ws_onclose_timer_inv split: option.splits)
next
  case (Timeout t)
  show ?thesis
  proof (cases "find (\<lambda>(h, _). h = t) (timers st)")
    case None
    with Timeout assms show ?thesis by simp
  next
    case (Some entry)
    then have "t \<in> fst ` set (timers st)" by (rule find_timer)
    with assms have "map fst (timers st) = [t]"
      by (auto simp: timer_inv_def split: option.splits)
    then have "filter (\<lambda>(h, _). h \<noteq> t) (timers st) = []"
      by (cases "timers st") (auto split: if_splits)
    then have "timer_inv (reconnect tok (clearTimeout t st))" for tok
      by (simp add: reconnect_def connect_def once_def on_def clearTimeout_def timer_inv_def Let_def)
    with Timeout Some show ?thesis by (simp split: prod.splits)
  qed
qed

lemma reachable_timer_inv: "reachable d H st \<Longrightarrow> timer_inv st"
proof (induction rule: reachable.induct)
  case (reach_new opts)
  show ?case by (simp add: timer_inv_def ZellousSDK_def)
next
  case (reach_event st ev)
  then show ?case by (simp add: deliver_timer_inv)
next
  case (reach_connect st tok)
  then show ?case by (auto intro: prim_timer_inv prim_connect)
next
  case (reach_disconnect st)
  then show ?case by (auto intro: prim_timer_inv prim_disconnect)
next
  case (reach_on st e i)
  then show ?case by (auto intro: prim_timer_inv prim_on)
next
  case (reach_once st e i)
  then show ?case by (auto intro: prim_timer_inv prim_once)
next
  case (reach_off st e h)
  then show ?case by (auto intro: prim_timer_inv prim_off)
next
  case (reach_emit st e x)
  then show ?case by (simp add: emit_timer_inv)
next
  case (reach_joinRoom st r)
  then have "timer_inv st" by simp
  then show ?case by (rule timer_inv_frame) (simp_all add: joinRoom_timers)
next
  case (reach_sendMessage st content ty)
  then have "timer_inv st" by simp
  then show ?case by (rule timer_inv_frame) (simp_all add: sendMessage_timers)
next
  case (reach_sendImage st f b c)
  then have "timer_inv st" by simp
  then show ?case by (rule timer_inv_frame) (simp_all add: sendImage_timers)
next
  case (reach_uploadFile st f b p c)
  then have "timer_inv st" by simp
  then show ?case by (rule timer_inv_frame) (simp_all add: uploadFile_timers)
next
  case (reach_getMessages st l b)
  then have "timer_inv st" by simp
  then show ?case by (rule timer_inv_frame) (simp_all add: getMessages_timers)
next
  case (reach_getFiles st p)
  then have "timer_inv st" by simp
  then show ?case by (rule timer_inv_frame) (simp_all add: getFiles_timers)
next
  case (reach_broadcastState st now a s)
  then have "timer_inv st" by simp
  then show ?case by (rule timer_inv_frame) (simp_all add: broadcastState_timers)
qed

lemma ws_onclose_pending:
  "reconnectTimer (emit d H ''disconnected'' JUndefined (st\<lparr>connected := False\<rparr>)) \<noteq> None \<Longrightarrow>
   ws_onclose d H tok st = emit d H ''disconnected'' JUndefined (st\<lparr>connected := False\<rparr>)"
  by (auto simp: ws_onclose_def Let_def)

lemma ws_onclose_schedules:
  assumes "timer_inv st"
    and "reconnectTimer (emit d H ''disconnected'' JUndefined (st\<lparr>connected := False\<rparr>)) = None"
    and "autoReconnect st"
  shows "timers (ws_onclose d H tok st) =
           [(nextId (emit d H ''disconnected'' JUndefined (st\<lparr>connected := False\<rparr>)),
             reconnectDelay (emit d H ''disconnected'' JUndefined (st\<lparr>connected := False\<rparr>)),
             tok)]"
proof -
  let ?s1 = "emit d H ''disconnected'' JUndefined (st\<lparr>connected := False\<rparr>)"
  from assms(1) have "timer_inv (st\<lparr>connected := False\<rparr>)"
    by (simp add: timer_inv_def split: option.splits)
  then have "timer_inv ?s1" by (rule emit_timer_inv)
  with assms(2) have "timers ?s1 = []" by (simp add: timer_inv_def)
  moreover have "autoReconnect ?s1" using assms(3) by (simp add: emit_autoReconnect)
  ultimately show ?thesis
    using assms(2) by (simp add: ws_onclose_def Let_def setTimeout_def)
qed

lemma ws_onclose_again:
  assumes "listeners st ''disconnected'' = None" and "autoReconnect st"
  shows "ws_onclose d H tok' (ws_onclose d H tok st) = ws_onclose d H tok st"
proof -
  have e: "emit d H ''disconnected'' JUndefined (st\<lparr>connected := False\<rparr>) = st\<lparr>connected := False\<rparr>"
    using assms(1) by (simp add: emit_no_listeners)
  let ?s = "ws_onclose d H tok st"
  have l: "listeners ?s ''disconnected'' = None"
    using assms(1) by (simp add: ws_onclose_def Let_def e setTimeout_def)
  have c: "connected ?s = False"
    by (simp add: ws_onclose_def Let_def e setTimeout_def)
  have p: "reconnectTimer ?s \<noteq> None"
    using assms(2) by (rule close_always_leaves_a_timer)
  from c have s: "?s\<lparr>connected := False\<rparr> = ?s" by simp
  have "emit d H ''disconnected'' JUndefined (?s\<lparr>connected := False\<rparr>) = ?s"
    unfolding s using l by (rule emit_no_listeners)
  moreover from this p
  have "reconnectTimer (emit d H ''disconnected'' JUndefined (?s\<lparr>connected := False\<rparr>)) \<noteq> None"
    by simp
  ultimately show ?thesis by (simp add: ws_onclose_pending)
qed

lemma closes_after_first:
  assumes "listeners st ''disconnected'' = None" and "autoReconnect st"
  shows "closes d H (tok # toks) st = ws_onclose d H tok st"
proof (induction toks rule: rev_induct)
  case Nil
  show ?case by (simp add: closes_def)
next
  case (snoc tok' toks)
  have "closes d H (tok # toks @ [tok']) st = ws_onclose d H tok' (closes d H (tok # toks) st)"
    using closes_snoc [of d H "tok # toks" tok' st] by simp
  with snoc show ?case by (simp add: ws_onclose_again [OF assms])
qed

lemma closed_once:
  "deliver 0 idle (Close 2) open_client =
     open_client\<lparr>sockets := (sockets open_client)
        (2 \<mapsto> \<lparr>url = ''ws://localhost:3000'', ready = CLOSED, token = None, pending = 1, sent = []\<rparr>),
       connected := False, timers := [(4, 3000, None)], nextId := 5, reconnectTimer := Some 4\<rparr>"
  by (simp add: client_defs ws_onopen_def ws_onclose_def setTimeout_def emit_from_def ids)

text \<open>
  C8. In every state a client can reach, at most one reconnect timer is pending, and it is
  the one \<open>reconnectTimer\<close> refers to. From such a state, after any sequence of close events
  at most one timer is pending, and with auto-reconnect enabled and at least one close
  event exactly one is. A close event schedules a timer only when none is pending: if one
  is pending once the \<open>disconnected\<close> handlers have run, the close event does nothing more;
  if none is and auto-reconnect is enabled, it schedules one timer, with the token of the
  socket that closed. So, where no handler listens to \<open>disconnected\<close>, a sequence of close
  events leaves the client as its first close event did: the later ones schedule nothing.
\<close>

theorem at_most_one_reconnect_timer:
  assumes "reachable d H st"
  shows "length (timers st) \<le> 1 \<and>
         length (timers (closes d H toks st)) \<le> 1 \<and>
         (autoReconnect st \<and> toks \<noteq> [] \<longrightarrow>
            (\<exists>t delay tok. timers (closes d H toks st) = [(t, delay, tok)] \<and>
                           reconnectTimer (closes d H toks st) = Some t)) \<and>
         (reconnectTimer (emit d H ''disconnected'' JUndefined (st\<lparr>connected := False\<rparr>)) \<noteq> None \<longrightarrow>
            ws_onclose d H tok0 st =
              emit d H ''disconnected'' JUndefined (st\<lparr>connected := False\<rparr>)) \<and>
         (reconnectTimer (emit d H ''disconnected'' JUndefined (st\<lparr>connected := False\<rparr>)) = None \<and>
          autoReconnect st \<longrightarrow>
            timers (ws_onclose d H tok0 st) =
              [(nextId (emit d H ''disconnected'' JUndefined (st\<lparr>connected := False\<rparr>)),
                reconnectDelay (emit d H ''disconnected'' JUndefined (st\<lparr>connected := False\<rparr>)),
                tok0)]) \<and>
         (listeners st ''disconnected'' = None \<and> autoReconnect st \<longrightarrow>
            closes d H (tok0 # toks) st = ws_onclose d H tok0 st)"
proof -
  have inv0: "timer_inv st" using assms by (rule reachable_timer_inv)
  then have inv: "timer_inv (closes d H toks st)" by (rule closes_timer_inv)
  have pending: "autoReconnect st \<and> toks \<noteq> [] \<longrightarrow> reconnectTimer (closes d H toks st) \<noteq> None"
  proof (cases toks rule: rev_cases)
    case Nil
    then show ?thesis by simp
  next
    case (snoc ts tok)
    show ?thesis
    proof
      assume "autoReconnect st \<and> toks \<noteq> []"
      then have "autoReconnect (closes d H ts st)" by (simp add: closes_autoReconnect)
      then show "reconnectTimer (closes d H toks st) \<noteq> None"
        unfolding snoc closes_snoc by (rule close_always_leaves_a_timer)
    qed
  qed
  have one: "\<forall>t. reconnectTimer (closes d H toks st) = Some t \<longrightarrow>
      (\<exists>delay tok. timers (closes d H toks st) = [(t, delay, tok)])"
    using inv by (cases "timers (closes d H toks st)") (auto simp: timer_inv_def split: option.splits)
  have first: "length (timers st) \<le> 1 \<and>
         length (timers (closes d H toks st)) \<le> 1 \<and>
         (autoReconnect st \<and> toks \<noteq> [] \<longrightarrow>
            (\<exists>t delay tok. timers (closes d H toks st) = [(t, delay, tok)] \<and>
                           reconnectTimer (closes d H toks st) = Some t))"
    using inv0 inv pending one by (auto simp: timer_inv_length)
  from first ws_onclose_pending [of d H st tok0] ws_onclose_schedules [OF inv0, of d H tok0]
    closes_after_first [of st d H tok0 toks]
  show ?thesis by blast
qed

theorem at_most_one_reconnect_timer_witness:
  "reachable 0 idle new_client \<and> autoReconnect new_client \<and>
   listeners new_client ''disconnected'' = None \<and>
   timers (ws_onclose 0 idle (Some ''a'') new_client) = [(1, 3000, Some ''a'')] \<and>
   closes 0 idle [Some ''a'', None, Some ''b''] new_client =
     ws_onclose 0 idle (Some ''a'') new_client \<and>
   timers (closes 0 idle [Some ''a'', None, Some ''b''] new_client) = [(1, 3000, Some ''a'')] \<and>
   reconnectTimer (closes 0 idle [Some ''a'', None, Some ''b''] new_client) = Some 1 \<and>
   reachable 0 idle (deliver 0 idle (Close 2) open_client) \<and>
   timers (deliver 0 idle (Close 2) open_client) = [(4, 3000, None)] \<and>
   reconnectTimer (deliver 0 idle (Close 2) open_client) = Some 4 \<and>
   ws_onclose 0 idle (Some ''a'') (deliver 0 idle (Close 2) open_client) =
     deliver 0 idle (Close 2) open_client"
proof -
  have r: "reachable 0 idle new_client" unfolding new_client_def by (rule reach_new)
  have a: "autoReconnect new_client" by (simp add: client_defs)
  have l: "listeners new_client ''disconnected'' = None" by (simp add: client_defs)
  have e: "emit 0 idle ''disconnected'' JUndefined (new_client\<lparr>connected := False\<rparr>) = new_client"
    by (simp add: emit_from_def client_defs)
  have n: "reconnectTimer new_client = None" "nextId new_client = 1"
    "reconnectDelay new_client = 3000"
    by (simp_all add: client_defs)
  note A = at_most_one_reconnect_timer [OF r, of "[None, Some ''b'']" "Some ''a''"]
  from A a l e n have 1: "timers (ws_onclose 0 idle (Some ''a'') new_client) = [(1, 3000, Some ''a'')]"
    by simp
  from A a l have 2: "closes 0 idle [Some ''a'', None, Some ''b''] new_client =
     ws_onclose 0 idle (Some ''a'') new_client"
    by blast
  have 3: "reconnectTimer (ws_onclose 0 idle (Some ''a'') new_client) = Some 1"
    by (simp add: ws_onclose_def emit_from_def setTimeout_def client_defs)
  have "reachable 0 idle (snd (connect None new_client))" using r by (rule reach_connect)
  then have "reachable 0 idle open_client" unfolding open_client_def by (rule reach_event)
  then have r': "reachable 0 idle (deliver 0 idle (Close 2) open_client)" by (rule reach_event)
  let ?c = "deliver 0 idle (Close 2) open_client"
  have t: "timers ?c = [(4, 3000, None)]" "reconnectTimer ?c = Some 4"
    unfolding closed_once by simp_all
  have e': "emit 0 idle ''disconnected'' JUndefined (?c\<lparr>connected := False\<rparr>) = ?c"
    unfolding closed_once by (simp add: emit_from_def client_defs ws_onopen_def ids)
  from at_most_one_reconnect_timer [OF r', of "[]" "Some ''a''"] t e'
  have 4: "ws_onclose 0 idle (Some ''a'') ?c = ?c"
    by (simp del: deliver.simps)
  from r a l 1 2 3 r' t 4 show ?thesis by (simp del: deliver.simps)
qed

subsection \<open>Sending without a transport\<close>

text \<open>
  C9, as the claim states it, fails for one call: \<open>sendMessage\<close> with a type other than
  \<open>'text'\<close> does not fail while disconnected.
\<close>

theorem sendMessage_typed_call_does_not_fail:
  "\<not> transport_open new_client \<and>
   fst (sendMessage (JStr ''hello'') (JStr ''image'') new_client) = Returned success"
  by (simp add: new_client_closed sendMessage_def orDefault_def)

text \<open>
  C9, amended. Every call that attempts a transmission while no transport is open
  (\<open>send\<close> itself, \<open>sendMessage\<close> with the default type or with \<open>'text'\<close>, \<open>sendImage\<close>,
  \<open>uploadFile\<close>, \<open>getMessages\<close>, \<open>getFiles\<close>, \<open>broadcastState\<close>, \<open>joinRoom\<close>) fails with
  the not-connected error and leaves the whole client unchanged: nothing is queued, no
  registration and no lifecycle field is altered.
\<close>

theorem send_fails_while_disconnected:
  assumes "\<not> transport_open st"
  shows "send m st = (Some NotConnected, st) \<and>
         sendMessage content JUndefined st = (Raised NotConnected, st) \<and>
         sendMessage content (JStr ''text'') st = (Raised NotConnected, st) \<and>
         sendImage filename base64Data caption st = (Raised NotConnected, st) \<and>
         uploadFile filename base64Data path description st = (Raised NotConnected, st) \<and>
         getMessages limit before st = (Raised NotConnected, st) \<and>
         getFiles path st = (Raised NotConnected, st) \<and>
         broadcastState now appName state st = (Raised NotConnected, st) \<and>
         joinRoom r st = (Raised NotConnected, st)"
  using assms
  by (simp add: send_closed sendMessage_def sendImage_def uploadFile_def getMessages_def
      getFiles_def broadcastState_def joinRoom_def orDefault_def)

theorem send_fails_while_disconnected_witness:
  "\<not> transport_open new_client \<and>
   sendMessage (JStr ''hello'') JUndefined new_client = (Raised NotConnected, new_client) \<and>
   listeners (snd (sendMessage (JStr ''hello'') JUndefined new_client)) = listeners new_client \<and>
   connected (snd (sendMessage (JStr ''hello'') JUndefined new_client)) = connected new_client"
  using send_fails_while_disconnected [OF new_client_closed, of _ "JStr ''hello''"]
    new_client_closed by simp

text \<open>
  C10. \<open>sendMessage\<close> called with a type argument that is given and is not \<open>'text'\<close>
  returns \<open>{success: true}\<close> and leaves the client unchanged, so nothing is transmitted on
  any socket, whether a transport is open or not. (An argument that is left out or is
  \<open>undefined\<close> takes the default \<open>'text'\<close>.)
\<close>

theorem sendMessage_other_type_transmits_nothing:
  assumes "ty \<noteq> JUndefined" and "ty \<noteq> JStr ''text''"
  shows "sendMessage content ty st = (Returned success, st)"
  using assms by (simp add: sendMessage_def orDefault_def)

theorem sendMessage_other_type_transmits_nothing_witness:
  "JStr ''sticker'' \<noteq> JUndefined \<and> JStr ''sticker'' \<noteq> JStr ''text'' \<and>
   \<not> transport_open new_client \<and>
   sendMessage (JStr ''hi'') (JStr ''sticker'') new_client = (Returned success, new_client) \<and>
   transport_open open_client \<and>
   sockets (snd (sendMessage (JStr ''hi'') (JStr ''sticker'') open_client)) = sockets open_client"
  using sendMessage_other_type_transmits_nothing [of "JStr ''sticker''" "JStr ''hi''" new_client]
    sendMessage_other_type_transmits_nothing [of "JStr ''sticker''" "JStr ''hi''" open_client]
    new_client_closed open_client_open
  by simp

subsection \<open>Round trip of the codec\<close>

lemma hex_table: "\<forall>n \<in> set [0..<16]. hex_val (hex_char n) = Some n"
  by code_simp

lemma hex_val_hex_char: "n < 16 \<Longrightarrow> hex_val (hex_char n) = Some n"
  using hex_table by simp

lemma digit_table:
  "\<forall>n \<in> set [0..<10]. is_digit (digit_char n) \<and> digit_val (digit_char n) = n \<and>
     (digit_char n = CHR ''0'' \<longleftrightarrow> n = 0)"
  by code_simp

lemma digit_char_props:
  assumes "n < 10"
  shows "is_digit (digit_char n)" and "digit_val (digit_char n) = n"
    and "digit_char n = CHR ''0'' \<longleftrightarrow> n = 0"
  using digit_table assms by simp_all

lemma p_string_quote_char: "p_string (quote_char c @ t) = with_chars [c] (p_string t)"
proof -
  consider "c = CHR 0x08" | "c = CHR 0x09" | "c = CHR 0x0A" | "c = CHR 0x0C" | "c = CHR 0x0D"
    | "c = CHR 0x22" | "c = CHR 0x5C"
    | "c \<noteq> CHR 0x08" "c \<noteq> CHR 0x09" "c \<noteq> CHR 0x0A" "c \<noteq> CHR 0x0C" "c \<noteq> CHR 0x0D"
      "c \<noteq> CHR 0x22" "c \<noteq> CHR 0x5C" "(of_char c :: nat) < 32"
    | "c \<noteq> CHR 0x22" "c \<noteq> CHR 0x5C" "\<not> (of_char c :: nat) < 32"
    by blast
  then show ?thesis
  proof cases
    case 8
    let ?n = "of_char c :: nat"
    have hi: "hex_val (hex_char (?n div 16)) = Some (?n div 16)"
      using 8(8) by (intro hex_val_hex_char) simp
    have lo: "hex_val (hex_char (?n mod 16)) = Some (?n mod 16)"
      by (intro hex_val_hex_char) simp
    have z: "hex_val CHR ''0'' = Some 0" by (simp add: hex_val_def)
    have "hex4 CHR ''0'' CHR ''0'' (hex_char (?n div 16)) (hex_char (?n mod 16)) = Some ?n"
      by (simp add: hex4_def hi lo z)
    moreover have "pair_with ?n t = None" "utf8 ?n = [c]"
      using 8(8) by (simp_all add: pair_with_def utf8_def)
    ultimately show ?thesis using 8 by (simp add: quote_char_def)
  next
    case 9
    then have "quote_char c = [c]"
      by (auto simp: quote_char_def)
    with 9 show ?thesis by simp
  qed (simp_all add: quote_char_def unescape_def)
qed

lemma p_string_quoted:
  "p_string (concat (map quote_char s) @ CHR 0x22 # rest) = Inr (s, rest)"
  by (induction s) (simp_all add: p_string_quote_char with_chars_def)

lemma show_nat_digits: "list_all is_digit (show_nat n)"
proof (induction n rule: show_nat.induct)
  case (1 n)
  show ?case
  proof (cases "n < 10")
    case True
    then show ?thesis by (subst show_nat.simps) (simp add: digit_char_props)
  next
    case False
    with 1 show ?thesis by (subst show_nat.simps) (simp add: digit_char_props)
  qed
qed

lemma show_nat_nonempty: "show_nat n \<noteq> []"
  by (subst show_nat.simps) simp

lemma read_nat_snoc: "read_nat (ds @ [c]) = 10 * read_nat ds + digit_val c"
  by (simp add: read_nat_def)

lemma read_nat_show_nat: "read_nat (show_nat n) = n"
proof (induction n rule: show_nat.induct)
  case (1 n)
  show ?case
  proof (cases "n < 10")
    case True
    then show ?thesis by (subst show_nat.simps) (simp add: read_nat_def digit_char_props)
  next
    case False
    with 1 have "read_nat (show_nat (n div 10)) = n div 10" by simp
    with False show ?thesis
      by (subst show_nat.simps) (simp add: read_nat_snoc digit_char_props)
  qed
qed

lemma show_nat_leading_zero: "hd (show_nat n) = CHR ''0'' \<Longrightarrow> n = 0"
proof (induction n rule: show_nat.induct)
  case (1 n)
  show ?case
  proof (cases "n < 10")
    case True
    with "1.prems" show ?thesis by (subst (asm) show_nat.simps) (simp add: digit_char_props)
  next
    case False
    with "1.prems" have "hd (show_nat (n div 10)) = CHR ''0''"
      by (subst (asm) show_nat.simps) (simp add: show_nat_nonempty)
    with 1 False have "n div 10 = 0" by simp
    with False show ?thesis by simp
  qed
qed

lemma show_nat_zero: "show_nat 0 = ''0''"
  by (subst show_nat.simps) (simp add: digit_char_def)

lemma tail_ok_not_digit: "tail_ok rest \<Longrightarrow> rest \<noteq> [] \<Longrightarrow> \<not> is_digit (hd rest)"
  by (auto simp: tail_ok_def is_digit_def)

lemma takeWhile_digits:
  assumes "tail_ok rest"
  shows "takeWhile is_digit (show_nat n @ rest) = show_nat n"
    and "dropWhile is_digit (show_nat n @ rest) = rest"
proof -
  have all: "\<forall>c \<in> set (show_nat n). is_digit c"
    using show_nat_digits [of n] by (simp add: list_all_iff)
  have "takeWhile is_digit rest = []" "dropWhile is_digit rest = rest"
    using tail_ok_not_digit [OF assms] by (cases rest; simp)+
  with all show "takeWhile is_digit (show_nat n @ rest) = show_nat n"
    and "dropWhile is_digit (show_nat n @ rest) = rest"
    by (simp_all add: takeWhile_append2 dropWhile_append2)
qed

lemma show_nat_no_minus: "hd (show_nat n) \<noteq> CHR ''-''"
proof -
  have "is_digit (hd (show_nat n))"
    using show_nat_digits [of n] show_nat_nonempty [of n] by (cases "show_nat n") simp_all
  then show ?thesis by (auto simp: is_digit_def)
qed

lemma p_number_show_nat:
  assumes "tail_ok rest"
  shows "p_number (show_nat n @ rest) = Inr (JNum (int n), rest)"
proof -
  have ne: "show_nat n \<noteq> []" by (rule show_nat_nonempty)
  have nm: "hd (show_nat n @ rest) \<noteq> CHR ''-''" using ne show_nat_no_minus by simp
  have lz: "\<not> (hd (show_nat n) = CHR ''0'' \<and> 1 < length (show_nat n))"
    using show_nat_leading_zero [of n] show_nat_zero by auto
  have tl: "p_frac rest = Some ([], rest)" "p_exp rest = Some (0, rest)"
    using assms by (auto simp: tail_ok_def p_frac_def p_exp_def)
  show ?thesis
    using ne nm lz tl
    by (simp add: p_number_def Let_def number_def takeWhile_digits [OF assms] read_nat_show_nat)
qed

lemma p_number_show_int:
  assumes "tail_ok rest"
  shows "p_number (show_int i @ rest) = Inr (JNum i, rest)"
proof (cases "i < 0")
  case False
  then show ?thesis using p_number_show_nat [OF assms, of "nat i"] by (simp add: show_int_def)
next
  case True
  have ne: "show_nat (nat (- i)) \<noteq> []" by (rule show_nat_nonempty)
  have lz: "\<not> (hd (show_nat (nat (- i))) = CHR ''0'' \<and> 1 < length (show_nat (nat (- i))))"
    using show_nat_leading_zero [of "nat (- i)"] show_nat_zero by auto
  have tl: "p_frac rest = Some ([], rest)" "p_exp rest = Some (0, rest)"
    using assms by (auto simp: tail_ok_def p_frac_def p_exp_def)
  show ?thesis
    using True ne lz tl
    by (simp add: show_int_def p_number_def Let_def number_def takeWhile_digits [OF assms]
        read_nat_show_nat)
qed

lemma skip_ws_cons: "\<not> is_ws c \<Longrightarrow> skip_ws (c # t) = c # t"
  by (simp add: skip_ws_def)

lemma show_int_first: "\<exists>c t. show_int i = c # t \<and> (c = CHR ''-'' \<or> is_digit c)"
proof (cases "i < 0")
  case True
  then show ?thesis by (simp add: show_int_def)
next
  case False
  obtain c t where ct: "show_nat (nat i) = c # t"
    using show_nat_nonempty [of "nat i"] by (cases "show_nat (nat i)") auto
  with show_nat_digits [of "nat i"] have "is_digit c" by simp
  with ct False show ?thesis by (simp add: show_int_def)
qed

lemma show_dec_first: "\<exists>c t. show_dec m k = c # t \<and> (c = CHR ''-'' \<or> is_digit c)"
proof (cases "k = 0 \<or> m < 0")
  case True
  then show ?thesis using show_int_first [of m] by (auto simp: show_dec_def)
next
  case False
  obtain c t where ct: "show_nat (nat \<bar>m\<bar> div 10 ^ k) = c # t"
    using show_nat_nonempty [of "nat \<bar>m\<bar> div 10 ^ k"]
    by (cases "show_nat (nat \<bar>m\<bar> div 10 ^ k)") auto
  with show_nat_digits [of "nat \<bar>m\<bar> div 10 ^ k"] have "is_digit c" by simp
  with ct False show ?thesis by (simp add: show_dec_def)
qed

lemma digit_first_ok: "c = CHR ''-'' \<or> is_digit c \<Longrightarrow> first_ok c"
  by (auto simp: first_ok_def is_ws_def is_digit_def)

lemma ser_first: "\<exists>c t. ser v = c # t \<and> first_ok c"
proof (cases v)
  case (JNum i)
  from show_int_first [of i] obtain c t where "show_int i = c # t" "c = CHR ''-'' \<or> is_digit c"
    by blast
  with JNum show ?thesis by (auto intro: digit_first_ok)
next
  case (JDec m k)
  from show_dec_first [of m k] obtain c t where "show_dec m k = c # t" "c = CHR ''-'' \<or> is_digit c"
    by blast
  with JDec show ?thesis by (auto intro: digit_first_ok)
qed (auto simp: first_ok_def is_ws_def quote_def)

lemma join_cons: "join (t # ts) = t @ (if ts = [] then [] else CHR '','' # join ts)"
  by (cases ts) simp_all

lemma elem_texts_empty: "elem_texts vs = [] \<longleftrightarrow> vs = []"
  by (cases vs) simp_all

lemma safe_member_texts:
  "safe_members ((k, v) # kvs) \<Longrightarrow>
   member_texts ((k, v) # kvs) = (quote k @ CHR '':'' # ser v) # member_texts kvs"
  by auto

lemma member_texts_empty: "safe_members kvs \<Longrightarrow> member_texts kvs = [] \<longleftrightarrow> kvs = []"
  by (cases kvs) (auto split: if_splits)

lemma put_fresh: "k \<notin> fst ` set acc \<Longrightarrow> put k v acc = acc @ [(k, v)]"
  by (induction acc) auto

lemma foldl_put:
  "distinct (map fst (acc @ kvs)) \<Longrightarrow> foldl (\<lambda>acc (k, v). put k v acc) acc kvs = acc @ kvs"
proof (induction kvs arbitrary: acc)
  case Nil
  show ?case by simp
next
  case (Cons kv kvs)
  obtain k v where kv: "kv = (k, v)" by (cases kv)
  from Cons.prems kv have fresh: "k \<notin> fst ` set acc" by auto
  from Cons.prems kv have "distinct (map fst ((acc @ [(k, v)]) @ kvs))" by auto
  from Cons.IH [OF this] fresh kv show ?case by (simp add: put_fresh)
qed

lemma build_distinct: "distinct (map fst kvs) \<Longrightarrow> build kvs = JObj kvs"
  using foldl_put [of "[]" kvs] by (simp add: build_def)

lemma fuel_Suc: "2 * length (xs :: string) \<le> f \<Longrightarrow> xs \<noteq> [] \<Longrightarrow> \<exists>g. f = Suc g \<and> 2 * length xs \<le> Suc g"
  by (cases f) (auto simp: length_greater_0_conv [symmetric] simp del: length_greater_0_conv)

lemma p_value_atoms:
  assumes "tail_ok rest"
  shows "p_value (Suc g) (''null'' @ rest) = Inr (JNull, rest)"
    and "p_value (Suc g) (''true'' @ rest) = Inr (JBool True, rest)"
    and "p_value (Suc g) (''false'' @ rest) = Inr (JBool False, rest)"
    and "p_value (Suc g) (quote s @ rest) = Inr (JStr s, rest)"
    and "p_value (Suc g) (show_int i @ rest) = Inr (JNum i, rest)"
proof -
  show "p_value (Suc g) (''null'' @ rest) = Inr (JNull, rest)"
    by (simp add: skip_ws_def is_ws_def is_digit_def)
  show "p_value (Suc g) (''true'' @ rest) = Inr (JBool True, rest)"
    by (simp add: skip_ws_def is_ws_def is_digit_def)
  show "p_value (Suc g) (''false'' @ rest) = Inr (JBool False, rest)"
    by (simp add: skip_ws_def is_ws_def is_digit_def)
  show "p_value (Suc g) (quote s @ rest) = Inr (JStr s, rest)"
    by (simp add: skip_ws_def is_ws_def quote_def p_string_quoted)
  from show_int_first [of i] obtain c t where ct: "show_int i = c # t"
    and c: "c = CHR ''-'' \<or> is_digit c" by blast
  from c have "\<not> is_ws c" "c \<noteq> CHR ''{''" "c \<noteq> CHR ''[''" "c \<noteq> CHR 0x22"
    by (auto simp: is_ws_def is_digit_def)
  moreover have "p_number (c # t @ rest) = Inr (JNum i, rest)"
    using p_number_show_int [OF assms, of i] ct by simp
  ultimately show "p_value (Suc g) (show_int i @ rest) = Inr (JNum i, rest)"
    using c ct by (simp add: skip_ws_cons)
qed

lemma reads_backD:
  "reads_back v \<Longrightarrow> 2 * length (ser v) \<le> f \<Longrightarrow> tail_ok rest \<Longrightarrow>
   p_value f (ser v @ rest) = Inr (v, rest)"
  by (simp add: reads_back_def)

lemma elems_read_back:
  assumes "\<forall>v \<in> set vs. reads_back v"
  shows "vs \<noteq> [] \<Longrightarrow> 2 * length (join (elem_texts vs)) + 1 \<le> f \<Longrightarrow>
         p_elems f (join (elem_texts vs) @ CHR '']'' # rest) = Inr (vs, rest)"
  using assms
proof (induction vs arbitrary: f)
  case Nil
  then show ?case by simp
next
  case (Cons v vs)
  from Cons.prems(2) obtain g where f: "f = Suc g" by (cases f) auto
  have v: "reads_back v" using Cons.prems(3) by simp
  show ?case
  proof (cases "vs = []")
    case True
    have "2 * length (ser v) \<le> g" using Cons.prems(2) f True by simp
    moreover have "tail_ok (CHR '']'' # rest)" by (simp add: tail_ok_def)
    ultimately have "p_value g (ser v @ CHR '']'' # rest) = Inr (v, CHR '']'' # rest)"
      by (rule reads_backD [OF v])
    then show ?thesis using True f by (simp add: skip_ws_def is_ws_def)
  next
    case False
    let ?more = "join (elem_texts vs) @ CHR '']'' # rest"
    have shape: "join (elem_texts (v # vs)) = ser v @ CHR '','' # join (elem_texts vs)"
      using False by (simp add: join_cons elem_texts_empty)
    have "2 * length (ser v) \<le> g" using Cons.prems(2) f shape by simp
    moreover have "tail_ok (CHR '','' # ?more)" by (simp add: tail_ok_def)
    ultimately have 1: "p_value g (ser v @ CHR '','' # ?more) = Inr (v, CHR '','' # ?more)"
      by (rule reads_backD [OF v])
    have "2 * length (join (elem_texts vs)) + 1 \<le> g" using Cons.prems(2) f shape by simp
    moreover have "\<forall>v \<in> set vs. reads_back v" using Cons.prems(3) by simp
    ultimately have 2: "p_elems g ?more = Inr (vs, rest)"
      using False by (intro Cons.IH)
    show ?thesis using 1 2 shape f by (simp add: skip_ws_def is_ws_def)
  qed
qed

lemma members_read_back:
  assumes "\<forall>kv \<in> set kvs. reads_back (snd kv)" and "safe_members kvs"
  shows "kvs \<noteq> [] \<Longrightarrow> 2 * length (join (member_texts kvs)) + 1 \<le> f \<Longrightarrow>
         p_members f (join (member_texts kvs) @ CHR ''}'' # rest) = Inr (kvs, rest)"
  using assms
proof (induction kvs arbitrary: f)
  case Nil
  then show ?case by simp
next
  case (Cons kv kvs)
  obtain k v where kv: "kv = (k, v)" by (cases kv)
  from Cons.prems(2) obtain g where f: "f = Suc g" by (cases f) auto
  have v: "reads_back v" using Cons.prems(3) kv by simp
  have safe: "safe_members kvs" using Cons.prems(4) kv by simp
  have "v \<noteq> JUndefined" using Cons.prems(4) kv by auto
  then have mt: "member_texts (kv # kvs) = (quote k @ CHR '':'' # ser v) # member_texts kvs"
    using kv by simp
  have key: "p_string (concat (map quote_char k) @ CHR 0x22 # t) = Inr (k, t)" for t
    by (rule p_string_quoted)
  show ?case
  proof (cases "kvs = []")
    case True
    have "2 * length (ser v) \<le> g" using Cons.prems(2) f True mt by simp
    moreover have "tail_ok (CHR ''}'' # rest)" by (simp add: tail_ok_def)
    ultimately have "p_value g (ser v @ CHR ''}'' # rest) = Inr (v, CHR ''}'' # rest)"
      by (rule reads_backD [OF v])
    then show ?thesis using True f mt kv key
      by (simp add: skip_ws_def is_ws_def quote_def)
  next
    case False
    let ?more = "join (member_texts kvs) @ CHR ''}'' # rest"
    have ne: "member_texts kvs \<noteq> []" using False safe by (simp add: member_texts_empty)
    have shape: "join (member_texts (kv # kvs)) =
        quote k @ CHR '':'' # ser v @ CHR '','' # join (member_texts kvs)"
      using ne mt by (simp add: join_cons)
    have "2 * length (ser v) \<le> g" using Cons.prems(2) f shape by simp
    moreover have "tail_ok (CHR '','' # ?more)" by (simp add: tail_ok_def)
    ultimately have 1: "p_value g (ser v @ CHR '','' # ?more) = Inr (v, CHR '','' # ?more)"
      by (rule reads_backD [OF v])
    have "2 * length (join (member_texts kvs)) + 1 \<le> g" using Cons.prems(2) f shape by simp
    moreover have "\<forall>kv \<in> set kvs. reads_back (snd kv)" using Cons.prems(3) by simp
    ultimately have 2: "p_members g ?more = Inr (kvs, rest)"
      using False safe by (intro Cons.IH)
    show ?thesis using 1 2 shape f kv key
      by (simp add: skip_ws_def is_ws_def quote_def)
  qed
qed

lemma safe_elems_iff: "safe_elems vs \<longleftrightarrow> (\<forall>v \<in> set vs. json_safe v)"
  by (induction vs) auto

lemma safe_members_values: "safe_members kvs \<Longrightarrow> kv \<in> set kvs \<Longrightarrow> json_safe (snd kv)"
  by (induction kvs) auto

lemma json_safe_reads_back: "json_safe v \<Longrightarrow> reads_back v"
proof (induction v)
  case JUndefined
  then show ?case by simp
next
  case (JDec m k)
  then show ?case by simp
next
  case JNull
  show ?case unfolding reads_back_def
  proof (intro allI impI)
    fix f rest assume "2 * length (ser JNull) \<le> f" and t: "tail_ok rest"
    then obtain g where "f = Suc g" by (cases f) auto
    with p_value_atoms(1) [OF t] show "p_value f (ser JNull @ rest) = Inr (JNull, rest)" by simp
  qed
next
  case (JBool b)
  show ?case unfolding reads_back_def
  proof (intro allI impI)
    fix f rest assume "2 * length (ser (JBool b)) \<le> f" and t: "tail_ok rest"
    then obtain g where "f = Suc g" by (cases f) (auto split: if_splits)
    with p_value_atoms(2,3) [OF t] show "p_value f (ser (JBool b) @ rest) = Inr (JBool b, rest)"
      by simp
  qed
next
  case (JNum i)
  show ?case unfolding reads_back_def
  proof (intro allI impI)
    fix f rest assume "2 * length (ser (JNum i)) \<le> f" and t: "tail_ok rest"
    moreover from show_int_first [of i] have "show_int i \<noteq> []" by auto
    ultimately obtain g where "f = Suc g" by (cases f) auto
    with p_value_atoms(5) [OF t] show "p_value f (ser (JNum i) @ rest) = Inr (JNum i, rest)"
      by simp
  qed
next
  case (JStr s)
  show ?case unfolding reads_back_def
  proof (intro allI impI)
    fix f rest assume "2 * length (ser (JStr s)) \<le> f" and t: "tail_ok rest"
    then obtain g where "f = Suc g" by (cases f) (auto simp: quote_def)
    with p_value_atoms(4) [OF t] show "p_value f (ser (JStr s) @ rest) = Inr (JStr s, rest)"
      by simp
  qed
next
  case (JArr vs)
  have each: "\<forall>v \<in> set vs. reads_back v"
    using JArr by (simp add: safe_elems_iff)
  show ?case unfolding reads_back_def
  proof (intro allI impI)
    fix f rest assume fuel: "2 * length (ser (JArr vs)) \<le> f" and t: "tail_ok rest"
    then obtain g where f: "f = Suc g" by (cases f) auto
    show "p_value f (ser (JArr vs) @ rest) = Inr (JArr vs, rest)"
    proof (cases "vs = []")
      case True
      with f show ?thesis by (simp add: skip_ws_def is_ws_def)
    next
      case False
      then obtain v ws where vs: "vs = v # ws" by (cases vs) auto
      from ser_first [of v] obtain c u where cu: "ser v = c # u" and ok: "first_ok c" by blast
      let ?body = "join (elem_texts vs) @ CHR '']'' # rest"
      have hd: "?body = c # (u @ (if ws = [] then [] else CHR '','' # join (elem_texts ws)) @ CHR '']'' # rest)"
        using vs cu by (simp add: join_cons elem_texts_empty)
      have "2 * length (join (elem_texts vs)) + 1 \<le> g" using fuel f by simp
      with each False have "p_elems g ?body = Inr (vs, rest)" by (intro elems_read_back)
      moreover have "skip_ws ?body = ?body" "hd ?body \<noteq> CHR '']''"
        using ok unfolding hd by (simp_all add: skip_ws_cons first_ok_def)
      ultimately show ?thesis using f hd
        by (simp add: skip_ws_def is_ws_def split: list.splits)
    qed
  qed
next
  case (JObj kvs)
  have safe: "safe_members kvs" and dist: "distinct (map fst kvs)" using JObj.prems by simp_all
  have each: "\<forall>kv \<in> set kvs. reads_back (snd kv)"
  proof
    fix kv assume kv: "kv \<in> set kvs"
    then have "json_safe (snd kv)" by (rule safe_members_values [OF safe])
    moreover have "snd kv \<in> Basic_BNFs.snds kv" by (cases kv) simp
    ultimately show "reads_back (snd kv)" using JObj.IH kv by blast
  qed
  show ?case unfolding reads_back_def
  proof (intro allI impI)
    fix f rest assume fuel: "2 * length (ser (JObj kvs)) \<le> f" and t: "tail_ok rest"
    then obtain g where f: "f = Suc g" by (cases f) auto
    show "p_value f (ser (JObj kvs) @ rest) = Inr (JObj kvs, rest)"
    proof (cases "kvs = []")
      case True
      with f show ?thesis by (simp add: skip_ws_def is_ws_def)
    next
      case False
      then obtain k v ws where kvs: "kvs = (k, v) # ws" by (cases kvs) auto
      let ?body = "join (member_texts kvs) @ CHR ''}'' # rest"
      have "v \<noteq> JUndefined" using safe kvs by auto
      then have "member_texts kvs = (quote k @ CHR '':'' # ser v) # member_texts ws"
        using kvs by simp
      then have hd: "\<exists>u. ?body = CHR 0x22 # u"
        by (simp add: join_cons quote_def)
      then obtain u where u: "?body = CHR 0x22 # u" by blast
      have "2 * length (join (member_texts kvs)) + 1 \<le> g" using fuel f by simp
      with each safe False have "p_members g ?body = Inr (kvs, rest)"
        by (intro members_read_back)
      then show ?thesis using f u dist
        by (simp add: skip_ws_def is_ws_def build_distinct split: list.splits)
    qed
  qed
qed

text \<open>
  C6. Decoding the encoding of a message gives the message back: for every value of plain
  data (\<open>json_safe\<close>), and so for every record of the message taxonomy built from such
  values, \<open>_unpack(_pack(m))\<close> is \<open>m\<close>, with the same keys in the same order.
\<close>

theorem pack_unpack_round_trip:
  assumes "json_safe m"
  shows "unpack (pack m) = Inr m"
proof -
  from assms have "m \<noteq> JUndefined" by auto
  then have p: "pack m = Blob (ser m)" by (simp add: pack_def JSON_stringify_def)
  have "reads_back m" using assms by (rule json_safe_reads_back)
  then have "p_value (2 * length (ser m) + 1) (ser m @ []) = Inr (m, [])"
    by (rule reads_backD) (simp_all add: tail_ok_def)
  then show ?thesis using p by (simp add: unpack_def JSON_parse_def skip_ws_def)
qed

theorem pack_unpack_round_trip_witness:
  "json_safe join_room_r1 \<and> unpack (pack join_room_r1) = Inr join_room_r1 \<and>
   json_safe broadcast_sample \<and> unpack (pack broadcast_sample) = Inr broadcast_sample"
proof -
  have 1: "json_safe join_room_r1"
    by (simp add: join_room_r1_def digits_only_def is_digit_def)
  have 2: "json_safe broadcast_sample"
    by (simp add: broadcast_sample_def digits_only_def is_digit_def)
  from pack_unpack_round_trip [OF 1] pack_unpack_round_trip [OF 2] 1 2 show ?thesis by simp
qed

text \<open>Outside plain data the round trip can lose information: a field whose value is
  \<open>undefined\<close>, as in \<open>joinRoom()\<close> called without an argument, is not transmitted.\<close>

lemma undefined_field_is_lost:
  "unpack (pack (JObj [(''type'', JStr ''join_room''), (''roomId'', JUndefined)])) =
     Inr (JObj [(''type'', JStr ''join_room'')])"
  by code_simp

end
